theory Spec2Isabelle
  imports Main "HOL-Library.AList"
begin

section \<open>Data model of the Phabricator client\<close>

text \<open>
  The dataclasses of \<^verbatim>\<open>client.py\<close>. \<^verbatim>\<open>PhabricatorObject\<close> is the base class with
  five fields; \<^verbatim>\<open>PhabricatorWiki\<close> and \<^verbatim>\<open>PhabricatorTask\<close> add \<^verbatim>\<open>name\<close>,
  \<^verbatim>\<open>PhabricatorComment\<close> adds nothing. The field \<^verbatim>\<open>id\<close> is written \<open>id'\<close> here,
  \<open>id\<close> being the identity function of HOL.
\<close>

record PhabricatorObject =
  id' :: string
  phid :: string
  author_phid :: string
  timestamp :: int
  contents :: string

datatype phab_object =
    PhabricatorWiki PhabricatorObject string
  | PhabricatorTask PhabricatorObject string
  | PhabricatorComment PhabricatorObject

fun base :: "phab_object \<Rightarrow> PhabricatorObject" where
  "base (PhabricatorWiki b n) = b"
| "base (PhabricatorTask b n) = b"
| "base (PhabricatorComment b) = b"

fun is_wiki :: "phab_object \<Rightarrow> bool" where
  "is_wiki (PhabricatorWiki b n) = True"
| "is_wiki _ = False"

fun is_task :: "phab_object \<Rightarrow> bool" where
  "is_task (PhabricatorTask b n) = True"
| "is_task _ = False"

fun is_comment :: "phab_object \<Rightarrow> bool" where
  "is_comment (PhabricatorComment b) = True"
| "is_comment _ = False"

text \<open>
  Exceptions are values. \<open>IndexError\<close> is what \<^verbatim>\<open>transaction["comments"][0]\<close> raises on
  an empty list; \<open>HTTPError\<close> stands for whatever a page-fetch operation raises
  (\<^verbatim>\<open>raise_for_status\<close>, a transport failure); \<open>ValueError\<close> stands for what
  \<^verbatim>\<open>datetime.fromtimestamp\<close> raises on a timestamp it does not accept
  (\<^verbatim>\<open>ValueError\<close>, \<^verbatim>\<open>OverflowError\<close> or \<^verbatim>\<open>OSError\<close>, by platform).
\<close>

datatype error = IndexError | HTTPError | ValueError

subsection \<open>Raw pages\<close>

text \<open>
  A response of a search endpoint is the dictionary
  \<^verbatim>\<open>{"data": [...], "cursor": {"before": ..., "after": ...}}\<close>, or \<^verbatim>\<open>None\<close>.
  The rows carry the keys the parsers read; a cursor token is a string and JSON
  \<^verbatim>\<open>null\<close> is \<open>None\<close>. Rows are modelled with all the keys that the parsers read
  present, so the \<^verbatim>\<open>KeyError\<close> of a malformed row is outside this model; the list
  under \<^verbatim>\<open>"comments"\<close> may be empty.
\<close>

record cursor =
  before :: "string option"
  after :: "string option"

datatype 'r results = Results (data: "'r list") (cursor: cursor)

record raw_task =
  task_id :: string
  task_phid :: string
  task_name :: string
  task_description_raw :: string
  task_dateModified :: int
  task_authorPHID :: string

record raw_wiki =
  wiki_id :: string
  wiki_phid :: string
  wiki_dateModified :: int
  wiki_authorPHID :: string
  wiki_title :: string
  wiki_content_raw :: string

record raw_comment =
  comment_id :: string
  comment_phid :: string
  comment_content_raw :: string
  comment_dateModified :: int
  comment_authorPHID :: string

record raw_transaction =
  transaction_type :: "string option"
  transaction_comments :: "raw_comment list"

subsection \<open>Queries\<close>

text \<open>
  A query is a Python dictionary from parameter names to values. It is an association
  list in insertion order; \<^verbatim>\<open>query[k] = v\<close> is \<^const>\<open>AList.update\<close>, which
  replaces the value of a key that is present and appends a new key at the end.
\<close>

datatype qvalue = QStr string | QInt int | QBool bool

type_synonym query = "(string \<times> qvalue) list"

text \<open>
  What a page-fetch operation returns: it raises, it returns \<^verbatim>\<open>None\<close>, or it returns
  a page.
\<close>

datatype 'r response = Raise error | NoResult | Page "'r results"

text \<open>
  A page-fetch operation is a call to a remote server: it takes the query and the
  state of the world, and returns its response and the world after the call. A
  page-parse operation returns records or raises.
\<close>

type_synonym ('r, 'w) endpoint = "query \<Rightarrow> 'w \<Rightarrow> 'r response \<times> 'w"

type_synonym 'r parser = "'r results \<Rightarrow> error + phab_object list"

section \<open>The client\<close>

subsection \<open>Paging direction\<close>

datatype direction = Before | After

fun direction_key :: "direction \<Rightarrow> string" where
  "direction_key Before = ''before''"
| "direction_key After = ''after''"

fun cursor_get :: "cursor \<Rightarrow> direction \<Rightarrow> string option" where
  "cursor_get c Before = before c"
| "cursor_get c After = after c"

definition get_paging_direction :: "cursor \<Rightarrow> direction option" where
  "get_paging_direction c =
     (if before c \<noteq> None then Some Before
      else if after c \<noteq> None then Some After
      else None)"

subsection \<open>The traversal loop\<close>

text \<open>
  The local variables of \<^verbatim>\<open>_get_objects\<close>. \<open>query\<close> is the dictionary the caller
  passed: the loop assigns into it, so its final contents are part of what the
  caller sees.
\<close>

record loop_state =
  query :: query
  paging_direction :: "direction option"
  is_first_page :: bool
  parsed_objects :: "phab_object list"

text \<open>
  One iteration of \<^verbatim>\<open>while True\<close>: either the loop is left (by \<^verbatim>\<open>break\<close> or by an
  exception) with a result, the contents of the query dictionary and the world, or it
  goes round again with new locals.
\<close>

datatype 'w iteration =
    Leave "error + phab_object list" query 'w
  | Again loop_state 'w

definition get_objects_body ::
  "('r, 'w) endpoint \<Rightarrow> 'r parser \<Rightarrow> loop_state \<Rightarrow> 'w \<Rightarrow> 'w iteration" where
  "get_objects_body endpoint parser st w =
     (case endpoint (query st) w of
        (Raise e, w') \<Rightarrow> Leave (Inl e) (query st) w'
      | (NoResult, w') \<Rightarrow> Leave (Inr (parsed_objects st)) (query st) w'
      | (Page results, w') \<Rightarrow>
          (case parser results of
             Inl e \<Rightarrow> Leave (Inl e) (query st) w'
           | Inr objs \<Rightarrow>
               let parsed = parsed_objects st @ objs;
                   next_page_cursor = cursor results;
                   dir = (if is_first_page st then get_paging_direction next_page_cursor
                          else paging_direction st)
               in (case dir of
                     None \<Rightarrow> Leave (Inr parsed) (query st) w'
                   | Some d \<Rightarrow>
                       (case cursor_get next_page_cursor d of
                          None \<Rightarrow> Leave (Inr parsed) (query st) w'
                        | Some tok \<Rightarrow>
                            Again \<lparr> query = AList.update (direction_key d) (QStr tok) (query st),
                                    paging_direction = dir,
                                    is_first_page = False,
                                    parsed_objects = parsed \<rparr> w'))))"

text \<open>
  The loop may run forever (a server can hand out a cursor on every page), so it is a
  partial function: \<open>None\<close> is the run that never returns. The line that
  \<^verbatim>\<open>logging.info\<close> writes on an empty response is not part of the model.
\<close>

partial_function (option) get_objects_loop ::
  "('r, 'w) endpoint \<Rightarrow> 'r parser \<Rightarrow> loop_state \<Rightarrow> 'w
     \<Rightarrow> ((error + phab_object list) \<times> query \<times> 'w) option" where
  "get_objects_loop endpoint parser st w =
     (case get_objects_body endpoint parser st w of
        Leave r q w' \<Rightarrow> Some (r, q, w')
      | Again st' w' \<Rightarrow> get_objects_loop endpoint parser st' w')"

definition get_objects ::
  "('r, 'w) endpoint \<Rightarrow> 'r parser \<Rightarrow> query \<Rightarrow> 'w
     \<Rightarrow> ((error + phab_object list) \<times> query \<times> 'w) option" where
  "get_objects endpoint parser q w =
     get_objects_loop endpoint parser
       \<lparr> query = q, paging_direction = None, is_first_page = True, parsed_objects = [] \<rparr> w"

subsection \<open>The parsers\<close>

definition make_comment :: "raw_comment \<Rightarrow> phab_object" where
  "make_comment c =
     PhabricatorComment \<lparr> id' = comment_id c, phid = comment_phid c,
       author_phid = comment_authorPHID c, timestamp = comment_dateModified c,
       contents = comment_content_raw c \<rparr>"

text \<open>The \<^verbatim>\<open>for\<close> loop of \<^verbatim>\<open>_comment_parser\<close>, with its list \<^verbatim>\<open>parsed_comments\<close>.\<close>

fun comment_parser_loop ::
  "raw_transaction list \<Rightarrow> int \<Rightarrow> phab_object list \<Rightarrow> error + phab_object list" where
  "comment_parser_loop [] date_modified parsed_comments = Inr parsed_comments"
| "comment_parser_loop (transaction # rest) date_modified parsed_comments =
     (if transaction_type transaction = Some ''comment'' then
        (case transaction_comments transaction of
           [] \<Rightarrow> Inl IndexError
         | comment # _ \<Rightarrow>
             if comment_dateModified comment \<ge> date_modified
             then comment_parser_loop rest date_modified (parsed_comments @ [make_comment comment])
             else comment_parser_loop rest date_modified parsed_comments)
      else comment_parser_loop rest date_modified parsed_comments)"

definition comment_parser :: "raw_transaction results \<Rightarrow> int \<Rightarrow> error + phab_object list" where
  "comment_parser results date_modified = comment_parser_loop (data results) date_modified []"

definition make_task :: "raw_task \<Rightarrow> phab_object" where
  "make_task task =
     PhabricatorTask \<lparr> id' = task_id task, phid = task_phid task,
       author_phid = task_authorPHID task, timestamp = task_dateModified task,
       contents = task_description_raw task \<rparr> (task_name task)"

definition task_parser :: "raw_task results \<Rightarrow> error + phab_object list" where
  "task_parser results = Inr (map make_task (data results))"

definition make_wiki :: "raw_wiki \<Rightarrow> phab_object" where
  "make_wiki wiki =
     PhabricatorWiki \<lparr> id' = wiki_id wiki, phid = wiki_phid wiki,
       author_phid = wiki_authorPHID wiki, timestamp = wiki_dateModified wiki,
       contents = wiki_content_raw wiki \<rparr> (wiki_title wiki)"

text \<open>
  The \<^verbatim>\<open>for\<close> loop of \<^verbatim>\<open>_wiki_parser\<close>: \<^verbatim>\<open>parsed_wikis\<close> is a dictionary, created
  empty at every call of the parser, and \<^verbatim>\<open>list(parsed_wikis.values())\<close> lists its
  values in insertion order.
\<close>

fun wiki_parser_loop ::
  "raw_wiki list \<Rightarrow> int \<Rightarrow> (string \<times> phab_object) list \<Rightarrow> (string \<times> phab_object) list" where
  "wiki_parser_loop [] date_modified parsed_wikis = parsed_wikis"
| "wiki_parser_loop (wiki # rest) date_modified parsed_wikis =
     (if wiki_dateModified wiki \<ge> date_modified
      then wiki_parser_loop rest date_modified
             (AList.update (wiki_phid wiki) (make_wiki wiki) parsed_wikis)
      else wiki_parser_loop rest date_modified parsed_wikis)"

definition wiki_parser :: "raw_wiki results \<Rightarrow> int \<Rightarrow> error + phab_object list" where
  "wiki_parser results date_modified =
     Inr (map snd (wiki_parser_loop (data results) date_modified []))"

subsection \<open>The public methods of the client\<close>

text \<open>
  \<^verbatim>\<open>PhabricatorClient\<close> is used through its three search endpoints. What they send
  over HTTP is outside the source under study, so the client is the record of the
  three page-fetch operations.
\<close>

record 'w PhabricatorClient =
  query_maniphest :: "(raw_task, 'w) endpoint"
  query_transaction :: "(raw_transaction, 'w) endpoint"
  query_phriction :: "(raw_wiki, 'w) endpoint"

text \<open>
  The three methods build a fresh query dictionary and drop it on return: they give
  back the result of the traversal and the world.
\<close>

definition forget_query ::
  "((error + phab_object list) \<times> query \<times> 'w) option \<Rightarrow> ((error + phab_object list) \<times> 'w) option" where
  "forget_query r = map_option (\<lambda>(res, q, w). (res, w)) r"

definition get_object_comments ::
  "'w PhabricatorClient \<Rightarrow> phab_object \<Rightarrow> int \<Rightarrow> 'w \<Rightarrow> ((error + phab_object list) \<times> 'w) option" where
  "get_object_comments client obj date_modified w =
     forget_query (get_objects (query_transaction client)
       (\<lambda>results. comment_parser results date_modified)
       [(''objectIdentifier'', QStr (phid (base obj)))] w)"

definition get_all_tasks ::
  "'w PhabricatorClient \<Rightarrow> int \<Rightarrow> 'w \<Rightarrow> ((error + phab_object list) \<times> 'w) option" where
  "get_all_tasks client date_modified w =
     forget_query (get_objects (query_maniphest client) task_parser
       [(''queryKey'', QStr ''all''), (''constraints[modifiedStart]'', QInt date_modified)] w)"

definition get_all_wikis ::
  "'w PhabricatorClient \<Rightarrow> int \<Rightarrow> 'w \<Rightarrow> ((error + phab_object list) \<times> 'w) option" where
  "get_all_wikis client date_modified w =
     forget_query (get_objects (query_phriction client)
       (\<lambda>results. wiki_parser results date_modified)
       [(''queryKey'', QStr ''all''), (''attachments[content]'', QBool True),
        (''order'', QStr ''newest'')] w)"

section \<open>The data source\<close>

text \<open>
  \<^verbatim>\<open>BasicDocument\<close>, \<^verbatim>\<open>DocumentType\<close> and \<^verbatim>\<open>IndexQueue\<close> are declared elsewhere.
  A document is the record of the keyword arguments the data source passes; of
  \<^verbatim>\<open>DocumentType\<close> only the member \<^verbatim>\<open>COMMENT\<close> is used. The index queue is the
  sequence of the \<^verbatim>\<open>feed\<close> calls it receives, each with its batch; a \<^verbatim>\<open>feed\<close>
  call is taken to return normally.

  \<^verbatim>\<open>datetime.fromtimestamp\<close> is a function of the Python library: it returns a
  datetime or raises, and which timestamps it accepts depends on the platform and on
  the local time zone. It is a parameter \<open>fromtimestamp\<close> of the functions below, and
  the type \<open>'d\<close> of the datetimes is left open.
\<close>

datatype DocumentType = COMMENT

record 'd BasicDocument =
  doc_id :: string
  doc_data_source_id :: int
  doc_type :: DocumentType
  doc_title :: string
  doc_content :: string
  doc_timestamp :: 'd
  doc_author :: string
  doc_author_image_url :: string
  doc_location :: string
  doc_url :: string

record 'w PhabricatorDataSource =
  phab :: "'w PhabricatorClient"
  data_source_id :: int
  last_index_time_timestamp :: int

definition FEED_BATCH_SIZE :: nat where
  "FEED_BATCH_SIZE = 512"

fun title_of :: "phab_object \<Rightarrow> string" where
  "title_of (PhabricatorComment b) = ''Comment''"
| "title_of (PhabricatorWiki b n) = n"
| "title_of (PhabricatorTask b n) = n"

text \<open>
  The call \<^verbatim>\<open>BasicDocument(...)\<close> of the loop body: it raises when
  \<^verbatim>\<open>datetime.fromtimestamp(document.timestamp)\<close> raises.
\<close>

definition basic_document ::
  "(int \<Rightarrow> error + 'd) \<Rightarrow> int \<Rightarrow> phab_object \<Rightarrow> error + 'd BasicDocument" where
  "basic_document fromtimestamp dsid document =
     (case fromtimestamp (timestamp (base document)) of
        Inl e \<Rightarrow> Inl e
      | Inr instant \<Rightarrow>
          Inr \<lparr> doc_id = id' (base document),
                doc_data_source_id = dsid,
                doc_type = COMMENT,
                doc_title = title_of document,
                doc_content = contents (base document),
                doc_timestamp = instant,
                doc_author = author_phid (base document),
                doc_author_image_url = ''@@@'',
                doc_location = ''@@@'',
                doc_url = ''@@@'' \<rparr>)"

text \<open>
  The \<^verbatim>\<open>for\<close> loop of \<^verbatim>\<open>_index_all_documents\<close> with its locals
  \<^verbatim>\<open>parsed_documents\<close> and \<^verbatim>\<open>total_fed\<close>, and the \<^verbatim>\<open>feed\<close> calls made so far.
  The loop ends with its locals, or with the exception of the first record whose
  timestamp is rejected; the batches fed before the exception stay fed.
\<close>

fun index_loop ::
  "(int \<Rightarrow> error + 'd) \<Rightarrow> int \<Rightarrow> phab_object list \<Rightarrow> 'd BasicDocument list \<Rightarrow> nat
     \<Rightarrow> 'd BasicDocument list list
     \<Rightarrow> (error + 'd BasicDocument list \<times> nat) \<times> 'd BasicDocument list list" where
  "index_loop fromtimestamp dsid [] parsed_documents total_fed fed =
     (Inr (parsed_documents, total_fed), fed)"
| "index_loop fromtimestamp dsid (document # rest) parsed_documents total_fed fed =
     (case basic_document fromtimestamp dsid document of
        Inl e \<Rightarrow> (Inl e, fed)
      | Inr doc \<Rightarrow>
          let parsed = parsed_documents @ [doc]
          in if length parsed \<ge> FEED_BATCH_SIZE
             then index_loop fromtimestamp dsid rest [] (total_fed + length parsed) (fed @ [parsed])
             else index_loop fromtimestamp dsid rest parsed total_fed fed)"

text \<open>
  The result: the batches fed to the queue, in order, and either the exception that
  ended the call or the total that is logged (\<open>None\<close> when nothing is logged). After
  an exception in the loop there is no last \<^verbatim>\<open>feed\<close> and no log.
\<close>

definition index_all_documents ::
  "(int \<Rightarrow> error + 'd) \<Rightarrow> int \<Rightarrow> phab_object list
     \<Rightarrow> 'd BasicDocument list list \<times> (error + nat option)" where
  "index_all_documents fromtimestamp dsid documents =
     (case index_loop fromtimestamp dsid documents [] 0 [] of
        (Inl e, fed) \<Rightarrow> (fed, Inl e)
      | (Inr (parsed_documents, total_fed), fed) \<Rightarrow>
          let total = total_fed + length parsed_documents
          in (fed @ [parsed_documents], Inr (if total > 0 then Some total else None)))"

definition fetch_all_objects ::
  "'w PhabricatorDataSource \<Rightarrow> 'w \<Rightarrow> ((error + phab_object list) \<times> 'w) option" where
  "fetch_all_objects ds w =
     (case get_all_wikis (phab ds) (last_index_time_timestamp ds) w of
        None \<Rightarrow> None
      | Some (Inl e, w1) \<Rightarrow> Some (Inl e, w1)
      | Some (Inr wikis, w1) \<Rightarrow>
          (case get_all_tasks (phab ds) (last_index_time_timestamp ds) w1 of
             None \<Rightarrow> None
           | Some (Inl e, w2) \<Rightarrow> Some (Inl e, w2)
           | Some (Inr tasks, w2) \<Rightarrow> Some (Inr (tasks @ wikis), w2)))"

text \<open>The \<^verbatim>\<open>for\<close> loop of \<^verbatim>\<open>_fetch_all_comments\<close>, with its list \<^verbatim>\<open>comments\<close>.\<close>

fun fetch_all_comments_loop ::
  "'w PhabricatorDataSource \<Rightarrow> phab_object list \<Rightarrow> phab_object list \<Rightarrow> 'w
     \<Rightarrow> ((error + phab_object list) \<times> 'w) option" where
  "fetch_all_comments_loop ds [] comments w = Some (Inr comments, w)"
| "fetch_all_comments_loop ds (document # rest) comments w =
     (case get_object_comments (phab ds) document (last_index_time_timestamp ds) w of
        None \<Rightarrow> None
      | Some (Inl e, w1) \<Rightarrow> Some (Inl e, w1)
      | Some (Inr found, w1) \<Rightarrow> fetch_all_comments_loop ds rest (comments @ found) w1)"

definition fetch_all_comments ::
  "'w PhabricatorDataSource \<Rightarrow> phab_object list \<Rightarrow> 'w
     \<Rightarrow> ((error + phab_object list) \<times> 'w) option" where
  "fetch_all_comments ds documents w = fetch_all_comments_loop ds documents [] w"

text \<open>
  \<^verbatim>\<open>_feed_new_documents\<close>. \<open>Inl\<close>: a fetch raised, and \<^verbatim>\<open>_index_all_documents\<close>
  was not called. \<open>Inr\<close>: what \<^verbatim>\<open>_index_all_documents\<close> did with the merged list,
  its own exception included.
\<close>

definition feed_new_documents ::
  "(int \<Rightarrow> error + 'd) \<Rightarrow> 'w PhabricatorDataSource \<Rightarrow> 'w
     \<Rightarrow> ((error + 'd BasicDocument list list \<times> (error + nat option)) \<times> 'w) option" where
  "feed_new_documents fromtimestamp ds w =
     (case fetch_all_objects ds w of
        None \<Rightarrow> None
      | Some (Inl e, w1) \<Rightarrow> Some (Inl e, w1)
      | Some (Inr phab_objects, w1) \<Rightarrow>
          (case fetch_all_comments ds phab_objects w1 of
             None \<Rightarrow> None
           | Some (Inl e, w2) \<Rightarrow> Some (Inl e, w2)
           | Some (Inr comments, w2) \<Rightarrow>
               Some (Inr (index_all_documents fromtimestamp (data_source_id ds)
                            (phab_objects @ comments)), w2)))"

section \<open>A server that plays a script\<close>

text \<open>
  To speak of a sequence of pages, the world is a script: the responses the server
  will give to the successive calls, whatever the query, and the queries it has
  received so far. A server whose script is used up raises.
\<close>

type_synonym 'r script = "'r response list \<times> query list"

fun scripted :: "query \<Rightarrow> 'r script \<Rightarrow> 'r response \<times> 'r script" where
  "scripted q ([], seen) = (Raise HTTPError, ([], seen @ [q]))"
| "scripted q (r # rs, seen) = (r, (rs, seen @ [q]))"

section \<open>Sample data\<close>

text \<open>Concrete records and pages, on which the theorems below are instantiated.\<close>

text \<open>
  An instance of \<^verbatim>\<open>datetime.fromtimestamp\<close>: a platform with 64-bit time whose local
  time zone is UTC accepts the instants of the years 1 to 9999; the datetime is kept
  as its number of seconds.
\<close>

definition fromtimestamp_utc :: "int \<Rightarrow> error + int" where
  "fromtimestamp_utc t =
     (if - 62135596800 \<le> t \<and> t \<le> 253402300799 then Inr t else Inl ValueError)"

definition sample_late :: phab_object where
  "sample_late = PhabricatorComment \<lparr> id' = ''8'', phid = ''PHID-XACT-2'',
     author_phid = ''PHID-USER-1'', timestamp = 253402300800, contents = ''late'' \<rparr>"

definition sample_comment :: phab_object where
  "sample_comment = PhabricatorComment \<lparr> id' = ''7'', phid = ''PHID-XACT-1'',
     author_phid = ''PHID-USER-1'', timestamp = 100, contents = ''hello'' \<rparr>"

definition no_cursor :: cursor where
  "no_cursor = \<lparr> before = None, after = None \<rparr>"

definition comment_old :: raw_comment where
  "comment_old = \<lparr> comment_id = ''11'', comment_phid = ''PHID-XCMT-old'',
     comment_content_raw = ''first'', comment_dateModified = 99,
     comment_authorPHID = ''PHID-USER-a'' \<rparr>"

definition comment_at :: raw_comment where
  "comment_at = \<lparr> comment_id = ''12'', comment_phid = ''PHID-XCMT-at'',
     comment_content_raw = ''second'', comment_dateModified = 100,
     comment_authorPHID = ''PHID-USER-b'' \<rparr>"

definition comment_new :: raw_comment where
  "comment_new = \<lparr> comment_id = ''13'', comment_phid = ''PHID-XCMT-new'',
     comment_content_raw = ''third'', comment_dateModified = 150,
     comment_authorPHID = ''PHID-USER-a'' \<rparr>"

definition entry_edit :: raw_transaction where
  "entry_edit = \<lparr> transaction_type = Some ''title'', transaction_comments = [] \<rparr>"

definition entry_old :: raw_transaction where
  "entry_old = \<lparr> transaction_type = Some ''comment'', transaction_comments = [comment_old] \<rparr>"

definition entry_at :: raw_transaction where
  "entry_at = \<lparr> transaction_type = Some ''comment'',
     transaction_comments = [comment_at, comment_new] \<rparr>"

definition entry_empty :: raw_transaction where
  "entry_empty = \<lparr> transaction_type = Some ''comment'', transaction_comments = [] \<rparr>"

definition task_a :: raw_task where
  "task_a = \<lparr> task_id = ''1'', task_phid = ''PHID-TASK-a'', task_name = ''Fix login'',
     task_description_raw = ''Login fails'', task_dateModified = 120,
     task_authorPHID = ''PHID-USER-a'' \<rparr>"

definition task_b :: raw_task where
  "task_b = \<lparr> task_id = ''2'', task_phid = ''PHID-TASK-b'', task_name = ''Add search'',
     task_description_raw = ''Search box'', task_dateModified = 130,
     task_authorPHID = ''PHID-USER-b'' \<rparr>"

definition task_c :: raw_task where
  "task_c = \<lparr> task_id = ''3'', task_phid = ''PHID-TASK-c'', task_name = ''Update docs'',
     task_description_raw = ''Docs are old'', task_dateModified = 140,
     task_authorPHID = ''PHID-USER-a'' \<rparr>"

definition task_page_1 :: "raw_task results" where
  "task_page_1 = Results [task_a] \<lparr> before = Some ''300'', after = None \<rparr>"

definition task_page_2 :: "raw_task results" where
  "task_page_2 = Results [task_b] \<lparr> before = Some ''200'', after = Some ''400'' \<rparr>"

definition task_page_3 :: "raw_task results" where
  "task_page_3 = Results [task_c] \<lparr> before = None, after = Some ''300'' \<rparr>"

definition task_page_single :: "raw_task results" where
  "task_page_single = Results [task_a, task_b] \<lparr> before = None, after = None \<rparr>"

definition tasks_query :: query where
  "tasks_query = [(''queryKey'', QStr ''all''), (''constraints[modifiedStart]'', QInt 100)]"

definition wiki_new :: raw_wiki where
  "wiki_new = \<lparr> wiki_id = ''21'', wiki_phid = ''PHID-WIKI-home'', wiki_dateModified = 200,
     wiki_authorPHID = ''PHID-USER-a'', wiki_title = ''Home'', wiki_content_raw = ''new text'' \<rparr>"

definition wiki_old :: raw_wiki where
  "wiki_old = \<lparr> wiki_id = ''20'', wiki_phid = ''PHID-WIKI-home'', wiki_dateModified = 150,
     wiki_authorPHID = ''PHID-USER-b'', wiki_title = ''Home'', wiki_content_raw = ''old text'' \<rparr>"

definition wiki_page_1 :: "raw_wiki results" where
  "wiki_page_1 = Results [wiki_new] \<lparr> before = None, after = Some ''20'' \<rparr>"

definition wiki_page_2 :: "raw_wiki results" where
  "wiki_page_2 = Results [wiki_old] \<lparr> before = None, after = None \<rparr>"

definition wikis_query :: query where
  "wikis_query = [(''queryKey'', QStr ''all''), (''attachments[content]'', QBool True),
     (''order'', QStr ''newest'')]"

text \<open>
  A client whose three endpoints each play their own script; the world is the triple
  of the scripts of the task, wiki and transaction endpoints.
\<close>

definition scripted_client ::
  "(raw_task script \<times> raw_wiki script \<times> raw_transaction script) PhabricatorClient" where
  "scripted_client =
     \<lparr> query_maniphest = (\<lambda>q (t, k, c). case scripted q t of (r, t') \<Rightarrow> (r, (t', k, c))),
       query_transaction = (\<lambda>q (t, k, c). case scripted q c of (r, c') \<Rightarrow> (r, (t, k, c'))),
       query_phriction = (\<lambda>q (t, k, c). case scripted q k of (r, k') \<Rightarrow> (r, (t, k', c))) \<rparr>"

definition sample_source ::
  "(raw_task script \<times> raw_wiki script \<times> raw_transaction script) PhabricatorDataSource" where
  "sample_source = \<lparr> phab = scripted_client, data_source_id = 7, last_index_time_timestamp = 100 \<rparr>"

definition task_page_only :: "raw_task results" where
  "task_page_only = Results [task_a] \<lparr> before = None, after = None \<rparr>"

definition comments_of_task :: "raw_transaction results" where
  "comments_of_task = Results [entry_edit, entry_at] \<lparr> before = None, after = None \<rparr>"

definition comments_of_wiki :: "raw_transaction results" where
  "comments_of_wiki =
     Results [\<lparr> transaction_type = Some ''comment'', transaction_comments = [comment_new] \<rparr>]
       \<lparr> before = None, after = None \<rparr>"

definition sample_world :: "raw_task script \<times> raw_wiki script \<times> raw_transaction script" where
  "sample_world =
     (([Page task_page_only], []), ([Page wiki_page_2], []),
      ([Page comments_of_task, Page comments_of_wiki], []))"

definition sample_world_after :: "raw_task script \<times> raw_wiki script \<times> raw_transaction script" where
  "sample_world_after =
     (([], [tasks_query]), ([], [wikis_query]),
      ([], [[(''objectIdentifier'', QStr ''PHID-TASK-a'')],
            [(''objectIdentifier'', QStr ''PHID-WIKI-home'')]]))"

definition comment_page_1 :: "raw_transaction results" where
  "comment_page_1 = Results [entry_at] \<lparr> before = Some ''90'', after = None \<rparr>"

definition comment_page_2 :: "raw_transaction results" where
  "comment_page_2 = Results [entry_empty] \<lparr> before = Some ''80'', after = None \<rparr>"

definition comment_page_3 :: "raw_transaction results" where
  "comment_page_3 = Results [entry_old] \<lparr> before = None, after = None \<rparr>"

definition comments_query :: query where
  "comments_query = [(''objectIdentifier'', QStr ''PHID-TASK-a'')]"

section \<open>The batches fed to the index queue\<close>

lemma basic_document_ok:
  "(\<exists>doc. basic_document fromtimestamp dsid d = Inr doc)
     = (\<exists>t. fromtimestamp (timestamp (base d)) = Inr t)"
  by (auto simp: basic_document_def split: sum.splits)

lemma index_loop_batches:
  assumes "length parsed < FEED_BATCH_SIZE"
    and "\<forall>d \<in> set docs. \<exists>t. fromtimestamp (timestamp (base d)) = Inr t"
  shows "\<exists>batches acc.
           index_loop fromtimestamp dsid docs parsed tot fed
             = (Inr (acc, tot + FEED_BATCH_SIZE * length batches), fed @ batches)
           \<and> map Inr (concat batches @ acc)
               = map Inr parsed @ map (basic_document fromtimestamp dsid) docs
           \<and> (\<forall>b \<in> set batches. length b = FEED_BATCH_SIZE)
           \<and> length acc < FEED_BATCH_SIZE"
  using assms
proof (induction docs arbitrary: parsed tot fed)
  case Nil
  then show ?case by (intro exI[of _ "[]"] exI[of _ parsed]) simp
next
  case (Cons d docs)
  from Cons.prems(2) obtain doc where doc: "basic_document fromtimestamp dsid d = Inr doc"
    using basic_document_ok[of fromtimestamp dsid d] by auto
  have rest: "\<forall>d \<in> set docs. \<exists>t. fromtimestamp (timestamp (base d)) = Inr t"
    using Cons.prems(2) by simp
  let ?p = "parsed @ [doc]"
  show ?case
  proof (cases "length ?p \<ge> FEED_BATCH_SIZE")
    case True
    with Cons.prems(1) have len: "length ?p = FEED_BATCH_SIZE" by simp
    have step: "index_loop fromtimestamp dsid (d # docs) parsed tot fed
                  = index_loop fromtimestamp dsid docs [] (tot + length ?p) (fed @ [?p])"
      using doc True by (simp add: Let_def)
    have "length ([]::'a BasicDocument list) < FEED_BATCH_SIZE"
      by (simp add: FEED_BATCH_SIZE_def)
    from Cons.IH[OF this rest, of "tot + length ?p" "fed @ [?p]"] obtain bs acc where bs:
      "index_loop fromtimestamp dsid docs [] (tot + length ?p) (fed @ [?p])
         = (Inr (acc, (tot + length ?p) + FEED_BATCH_SIZE * length bs), (fed @ [?p]) @ bs)"
      "map Inr (concat bs @ acc) = map Inr [] @ map (basic_document fromtimestamp dsid) docs"
      "\<forall>b \<in> set bs. length b = FEED_BATCH_SIZE" "length acc < FEED_BATCH_SIZE"
      by blast
    show ?thesis
      using step bs len doc
      by (intro exI[of _ "?p # bs"] exI[of _ acc]) simp
  next
    case False
    then have small: "length ?p < FEED_BATCH_SIZE" by simp
    have step: "index_loop fromtimestamp dsid (d # docs) parsed tot fed
                  = index_loop fromtimestamp dsid docs ?p tot fed"
      using doc False by (simp add: Let_def)
    from Cons.IH[OF small rest, of tot fed] obtain bs acc where bs:
      "index_loop fromtimestamp dsid docs ?p tot fed
         = (Inr (acc, tot + FEED_BATCH_SIZE * length bs), fed @ bs)"
      "map Inr (concat bs @ acc) = map Inr ?p @ map (basic_document fromtimestamp dsid) docs"
      "\<forall>b \<in> set bs. length b = FEED_BATCH_SIZE" "length acc < FEED_BATCH_SIZE"
      by blast
    show ?thesis
      using step bs doc
      by (intro exI[of _ bs] exI[of _ acc]) simp
  qed
qed

lemma batches_sizes:
  assumes "\<forall>b \<in> set batches. length b = n"
  shows "length (concat batches) = n * length batches
       \<and> map length batches = replicate (length batches) n"
  using assms by (induction batches) auto

lemma index_loop_sizes:
  assumes "\<forall>d \<in> set docs. \<exists>t. fromtimestamp (timestamp (base d)) = Inr t"
  shows "\<exists>acc fed.
           index_loop fromtimestamp dsid docs [] 0 []
             = (Inr (acc, 512 * (length docs div 512)), fed)
           \<and> map length fed = replicate (length docs div 512) 512
           \<and> length acc = length docs mod 512
           \<and> map Inr (concat fed @ acc) = map (basic_document fromtimestamp dsid) docs"
proof -
  have "length ([]::'a BasicDocument list) < FEED_BATCH_SIZE" by (simp add: FEED_BATCH_SIZE_def)
  from index_loop_batches[OF this assms, of dsid 0 "[]"] obtain bs acc where bs:
    "index_loop fromtimestamp dsid docs [] 0 [] = (Inr (acc, 512 * length bs), bs)"
    "map Inr (concat bs @ acc) = map (basic_document fromtimestamp dsid) docs"
    "\<forall>b \<in> set bs. length b = 512" "length acc < 512"
    by (auto simp: FEED_BATCH_SIZE_def)
  from batches_sizes[OF bs(3)] have sz: "length (concat bs) = 512 * length bs"
    "map length bs = replicate (length bs) 512" by auto
  have "length (map Inr (concat bs @ acc)
                  :: (error + 'a BasicDocument) list) = length docs"
    unfolding bs(2) by simp
  then have n: "length docs = 512 * length bs + length acc" using sz(1) by simp
  have "length docs div 512 = length bs" "length docs mod 512 = length acc"
    using n bs(4) by auto
  then show ?thesis using bs sz by (intro exI[of _ acc] exI[of _ bs]) simp
qed

lemma index_all_documents_eq:
  assumes "index_loop fromtimestamp dsid docs [] 0 [] = (Inr (acc, tot), fed)"
    and "tot + length acc = length docs"
  shows "index_all_documents fromtimestamp dsid docs =
           (fed @ [acc], Inr (if 0 < length docs then Some (length docs) else None))"
proof -
  have "index_all_documents fromtimestamp dsid docs =
          (fed @ [acc], Inr (if 0 < tot + length acc then Some (tot + length acc) else None))"
    using assms(1) by (simp add: index_all_documents_def Let_def)
  then show ?thesis by (simp only: assms(2))
qed


text \<open>
  Claim C4, as the code has it. \<^verbatim>\<open>_index_all_documents\<close> converts the timestamp of
  every record with \<^verbatim>\<open>datetime.fromtimestamp\<close>, inside the loop. For every list of
  records whose timestamps that function accepts: the loop has fed one batch of 512
  documents for every 512 records it has gone through and holds the rest, fewer than
  512, in its accumulator, so a batch is fed when, and only when, the accumulator
  reaches 512; the call does not raise; the batches fed by the whole call are these
  full batches followed by the remainder, and together they are the documents of the
  records, in order. For 1025 such records the batches have the sizes 512, 512 and 1.
\<close>

theorem index_all_documents_batches:
  assumes "\<forall>d \<in> set documents. \<exists>t. fromtimestamp (timestamp (base d)) = Inr t"
  shows "(\<exists>parsed_documents total_fed fed.
            index_loop fromtimestamp dsid documents [] 0 []
              = (Inr (parsed_documents, total_fed), fed)
            \<and> map length fed = replicate (length documents div 512) 512
            \<and> length parsed_documents = length documents mod 512)
       \<and> (\<exists>logged. snd (index_all_documents fromtimestamp dsid documents) = Inr logged)
       \<and> map length (fst (index_all_documents fromtimestamp dsid documents))
            = replicate (length documents div 512) 512 @ [length documents mod 512]
       \<and> map Inr (concat (fst (index_all_documents fromtimestamp dsid documents)))
            = map (basic_document fromtimestamp dsid) documents
       \<and> (length documents = 1025 \<longrightarrow>
            map length (fst (index_all_documents fromtimestamp dsid documents)) = [512, 512, 1])"
proof -
  from index_loop_sizes[OF assms, of dsid] obtain acc fed where run:
    "index_loop fromtimestamp dsid documents [] 0 []
       = (Inr (acc, 512 * (length documents div 512)), fed)"
    and sz: "map length fed = replicate (length documents div 512) 512"
      "length acc = length documents mod 512"
      "map Inr (concat fed @ acc) = map (basic_document fromtimestamp dsid) documents"
    by blast
  have "512 * (length documents div 512) + length acc = length documents"
    using sz(2) by simp
  note eq = index_all_documents_eq[OF run this]
  have a: "map length (fst (index_all_documents fromtimestamp dsid documents))
        = replicate (length documents div 512) 512 @ [length documents mod 512]"
    using sz eq by simp
  have b: "map Inr (concat (fst (index_all_documents fromtimestamp dsid documents)))
        = map (basic_document fromtimestamp dsid) documents"
    using sz eq by simp
  have c: "length documents = 1025 \<longrightarrow>
        map length (fst (index_all_documents fromtimestamp dsid documents)) = [512, 512, 1]"
  proof
    assume n: "length documents = 1025"
    have "(1025::nat) div 512 = 2" "(1025::nat) mod 512 = 1" by simp_all
    then show "map length (fst (index_all_documents fromtimestamp dsid documents)) = [512, 512, 1]"
      using a n by (simp add: numeral_2_eq_2)
  qed
  have d: "\<exists>logged. snd (index_all_documents fromtimestamp dsid documents) = Inr logged"
    using eq by simp
  have e: "\<exists>parsed_documents total_fed fed.
            index_loop fromtimestamp dsid documents [] 0 []
              = (Inr (parsed_documents, total_fed), fed)
            \<and> map length fed = replicate (length documents div 512) 512
            \<and> length parsed_documents = length documents mod 512"
    using run sz by blast
  from e d a b c show ?thesis by blast
qed

text \<open>
  Claim C4 as stated fails: of 1025 records the first has a timestamp in the year
  10000, which \<^verbatim>\<open>datetime.fromtimestamp\<close> rejects, and the call raises before any
  batch is fed.
\<close>

theorem index_all_documents_batches_counterexample:
  "length (sample_late # replicate 1024 sample_comment) = 1025
   \<and> index_all_documents fromtimestamp_utc 3 (sample_late # replicate 1024 sample_comment)
       = ([], Inl ValueError)"
  by (simp add: index_all_documents_def basic_document_def fromtimestamp_utc_def sample_late_def)

theorem index_all_documents_batches_witness:
  "length (replicate 1025 sample_comment) = 1025
   \<and> map length (fst (index_all_documents fromtimestamp_utc 3 (replicate 1025 sample_comment)))
       = [512, 512, 1]"
proof -
  have ok: "\<forall>d \<in> set (replicate 1025 sample_comment).
              \<exists>t. fromtimestamp_utc (timestamp (base d)) = Inr t"
    by (simp add: sample_comment_def fromtimestamp_utc_def)
  from index_all_documents_batches[OF ok, of 3] show ?thesis
    by (simp add: numeral_2_eq_2)
qed

text \<open>
  Claim C10, as the code has it. For every list of records whose timestamps
  \<^verbatim>\<open>datetime.fromtimestamp\<close> accepts: when the number of records is a multiple of 512
  (zero included), the last \<^verbatim>\<open>feed\<close> call of \<^verbatim>\<open>_index_all_documents\<close> still happens
  and carries the empty batch, after one full batch for every 512 records; and the
  total is logged exactly when it is greater than zero, and it is the number of
  records.
\<close>

theorem index_all_documents_final_feed:
  assumes "\<forall>d \<in> set documents. \<exists>t. fromtimestamp (timestamp (base d)) = Inr t"
  shows "(length documents mod 512 = 0 \<longrightarrow>
            map length (fst (index_all_documents fromtimestamp dsid documents))
              = replicate (length documents div 512) 512 @ [0]
            \<and> length (fst (index_all_documents fromtimestamp dsid documents))
                = length documents div 512 + 1
            \<and> last (fst (index_all_documents fromtimestamp dsid documents)) = [])
       \<and> snd (index_all_documents fromtimestamp dsid documents)
            = Inr (if 0 < length documents then Some (length documents) else None)"
proof -
  from index_loop_sizes[OF assms, of dsid] obtain acc fed where run:
    "index_loop fromtimestamp dsid documents [] 0 []
       = (Inr (acc, 512 * (length documents div 512)), fed)"
    and sz: "map length fed = replicate (length documents div 512) 512"
      "length acc = length documents mod 512"
    by blast
  have "512 * (length documents div 512) + length acc = length documents"
    using sz(2) by simp
  note eq = index_all_documents_eq[OF run this]
  have len: "length fed = length documents div 512"
    using sz(1) by (metis length_map length_replicate)
  have empty: "length documents mod 512 = 0 \<longrightarrow> acc = []"
    using sz(2) by auto
  show ?thesis using len empty eq sz(1) by auto
qed

text \<open>
  Claim C10 as stated fails: of 512 records the first has a timestamp that
  \<^verbatim>\<open>datetime.fromtimestamp\<close> rejects; the call raises, and neither the last
  \<^verbatim>\<open>feed\<close> nor the log happens.
\<close>

theorem index_all_documents_final_feed_counterexample:
  "length (sample_late # replicate 511 sample_comment) mod 512 = 0
   \<and> index_all_documents fromtimestamp_utc 3 (sample_late # replicate 511 sample_comment)
       = ([], Inl ValueError)"
  by (simp add: index_all_documents_def basic_document_def fromtimestamp_utc_def sample_late_def)

theorem index_all_documents_final_feed_witness:
  "index_all_documents fromtimestamp_utc 3 [] = ([[]], Inr None)
   \<and> length (replicate 512 sample_comment) mod 512 = 0
   \<and> map length (fst (index_all_documents fromtimestamp_utc 3 (replicate 512 sample_comment)))
       = [512, 0]
   \<and> last (fst (index_all_documents fromtimestamp_utc 3 (replicate 512 sample_comment))) = []
   \<and> snd (index_all_documents fromtimestamp_utc 3 (replicate 512 sample_comment))
       = Inr (Some 512)"
proof -
  have ok: "\<forall>d \<in> set (replicate 512 sample_comment).
              \<exists>t. fromtimestamp_utc (timestamp (base d)) = Inr t"
    by (simp add: sample_comment_def fromtimestamp_utc_def)
  have none: "\<forall>d \<in> set ([]::phab_object list).
              \<exists>t. fromtimestamp_utc (timestamp (base d)) = Inr t" by simp
  have "index_all_documents fromtimestamp_utc 3 [] = ([[]], Inr None)"
    using index_all_documents_final_feed[OF none, of 3]
    by (simp add: index_all_documents_def)
  with index_all_documents_final_feed[OF ok, of 3] show ?thesis by simp
qed

section \<open>The comment parser\<close>

lemma comment_parser_loop_eq:
  "comment_parser_loop ts wm acc =
     (if \<exists>t \<in> set ts. transaction_type t = Some ''comment'' \<and> transaction_comments t = []
      then Inl IndexError
      else Inr (acc @ map (\<lambda>t. make_comment (hd (transaction_comments t)))
                  (filter (\<lambda>t. transaction_type t = Some ''comment''
                             \<and> wm \<le> comment_dateModified (hd (transaction_comments t))) ts)))"
proof (induction ts arbitrary: acc)
  case Nil
  then show ?case by simp
next
  case (Cons t ts)
  show ?case
  proof (cases "transaction_type t = Some ''comment''")
    case False
    then show ?thesis using Cons.IH[of acc] by simp
  next
    case True
    show ?thesis
    proof (cases "transaction_comments t")
      case Nil
      then show ?thesis using True by simp
    next
      case (Cons c cs)
      then show ?thesis
        using True Cons.IH[of acc] Cons.IH[of "acc @ [make_comment c]"] by auto
    qed
  qed
qed

text \<open>
  Claim C5, as the code has it. \<^verbatim>\<open>transaction["comments"][0]\<close> raises on an empty
  list, and the exception ends the parsing of the page. For every page in which every
  entry of kind "comment" has at least one comment, and every watermark,
  \<^verbatim>\<open>_comment_parser\<close> returns, in page order, one record for each entry whose kind is
  "comment" and whose first comment has a modification time greater than or equal to
  the watermark, and no other record: entries of other kinds and comments strictly
  older than the watermark are left out without error, and a comment whose
  modification time equals the watermark is kept.
\<close>

theorem comment_parser_filter:
  assumes "\<forall>t \<in> set (data results).
             transaction_type t = Some ''comment'' \<longrightarrow> transaction_comments t \<noteq> []"
  shows "comment_parser results date_modified =
           Inr (map (\<lambda>t. make_comment (hd (transaction_comments t)))
                 (filter (\<lambda>t. transaction_type t = Some ''comment''
                            \<and> date_modified \<le> comment_dateModified (hd (transaction_comments t)))
                    (data results)))"
  using assms unfolding comment_parser_def by (auto simp: comment_parser_loop_eq)

text \<open>
  Claim C5 as stated fails: in a page of two entries of kind "comment", the first with
  a comment modified at the watermark and the second with an empty comment list, the
  first entry qualifies and yet no record is returned: the parser raises.
\<close>

theorem comment_parser_filter_counterexample:
  "transaction_type entry_at = Some ''comment''
   \<and> 100 \<le> comment_dateModified (hd (transaction_comments entry_at))
   \<and> comment_parser (Results [entry_at, entry_empty] no_cursor) 100 = Inl IndexError"
  by (simp add: comment_parser_def entry_at_def entry_empty_def comment_at_def)

lemma comment_parser_loop_take:
  "comment_parser_loop (map (\<lambda>t. t\<lparr>transaction_comments := take 1 (transaction_comments t)\<rparr>) ts) wm acc
     = comment_parser_loop ts wm acc"
proof (induction ts arbitrary: acc)
  case Nil
  then show ?case by simp
next
  case (Cons t ts)
  then show ?case by (cases "transaction_comments t") simp_all
qed

text \<open>
  Claim C9. \<^verbatim>\<open>_comment_parser\<close> reads only the first element of the comment list
  of an entry: cutting every list down to its first element changes nothing. If an
  entry of kind "comment" has an empty comment list the parser raises
  \<^verbatim>\<open>IndexError\<close> and the page yields no records; if every entry of kind "comment"
  has at least one comment the parser returns a list.
\<close>

theorem comment_parser_first_payload:
  "comment_parser (Results (map (\<lambda>t. t\<lparr>transaction_comments := take 1 (transaction_comments t)\<rparr>) ts) c)
       date_modified
     = comment_parser (Results ts c) date_modified
   \<and> ((\<exists>t \<in> set ts. transaction_type t = Some ''comment'' \<and> transaction_comments t = [])
        \<longrightarrow> comment_parser (Results ts c) date_modified = Inl IndexError)
   \<and> ((\<forall>t \<in> set ts. transaction_type t = Some ''comment'' \<longrightarrow> transaction_comments t \<noteq> [])
        \<longrightarrow> (\<exists>out. comment_parser (Results ts c) date_modified = Inr out))"
proof (intro conjI)
  show "comment_parser (Results (map (\<lambda>t. t\<lparr>transaction_comments := take 1 (transaction_comments t)\<rparr>) ts) c)
       date_modified = comment_parser (Results ts c) date_modified"
    unfolding comment_parser_def by (simp only: results.sel comment_parser_loop_take)
  show "(\<exists>t \<in> set ts. transaction_type t = Some ''comment'' \<and> transaction_comments t = [])
        \<longrightarrow> comment_parser (Results ts c) date_modified = Inl IndexError"
    unfolding comment_parser_def by (simp add: comment_parser_loop_eq)
  show "(\<forall>t \<in> set ts. transaction_type t = Some ''comment'' \<longrightarrow> transaction_comments t \<noteq> [])
        \<longrightarrow> (\<exists>out. comment_parser (Results ts c) date_modified = Inr out)"
    unfolding comment_parser_def by (auto simp: comment_parser_loop_eq)
qed


lemmas sample_entries =
  no_cursor_def comment_old_def comment_at_def comment_new_def
  entry_edit_def entry_old_def entry_at_def entry_empty_def

theorem comment_parser_filter_witness:
  "comment_parser (Results [entry_edit, entry_old, entry_at] no_cursor) 100
     = Inr [make_comment comment_at]"
proof -
  have ok: "\<forall>t \<in> set (data (Results [entry_edit, entry_old, entry_at] no_cursor)).
              transaction_type t = Some ''comment'' \<longrightarrow> transaction_comments t \<noteq> []"
    by (simp add: sample_entries)
  from comment_parser_filter [OF ok, of 100] show ?thesis
    by (simp add: sample_entries)
qed

theorem comment_parser_first_payload_witness:
  "comment_parser (Results [entry_at, entry_empty] no_cursor) 100 = Inl IndexError
   \<and> (\<exists>out. comment_parser (Results [entry_edit, entry_at] no_cursor) 100 = Inr out)
   \<and> comment_parser (Results [entry_at\<lparr>transaction_comments := [comment_at]\<rparr>] no_cursor) 100
       = comment_parser (Results [entry_at] no_cursor) 100"
  using comment_parser_first_payload [of "[entry_at, entry_empty]" no_cursor 100]
    comment_parser_first_payload [of "[entry_edit, entry_at]" no_cursor 100]
    comment_parser_first_payload [of "[entry_at]" no_cursor 100]
  by (simp add: sample_entries)

section \<open>The traversal loop against a script\<close>

subsection \<open>One iteration\<close>

lemma loop_leave:
  "get_objects_body endpoint parser st w = Leave r q w'
     \<Longrightarrow> get_objects_loop endpoint parser st w = Some (r, q, w')"
  by (subst get_objects_loop.simps) simp

lemma loop_again:
  "get_objects_body endpoint parser st w = Again st' w'
     \<Longrightarrow> get_objects_loop endpoint parser st w = get_objects_loop endpoint parser st' w'"
  by (subst get_objects_loop.simps) simp

lemma body_raise:
  "endpoint (query st) w = (Raise e, w')
     \<Longrightarrow> get_objects_body endpoint parser st w = Leave (Inl e) (query st) w'"
  by (simp add: get_objects_body_def)

lemma body_no_result:
  "endpoint (query st) w = (NoResult, w')
     \<Longrightarrow> get_objects_body endpoint parser st w = Leave (Inr (parsed_objects st)) (query st) w'"
  by (simp add: get_objects_body_def)

lemma body_parser_raises:
  "endpoint (query st) w = (Page results, w') \<Longrightarrow> parser results = Inl e
     \<Longrightarrow> get_objects_body endpoint parser st w = Leave (Inl e) (query st) w'"
  by (simp add: get_objects_body_def)

lemma body_first_single:
  "endpoint (query st) w = (Page results, w') \<Longrightarrow> parser results = Inr objs
     \<Longrightarrow> is_first_page st \<Longrightarrow> get_paging_direction (cursor results) = None
     \<Longrightarrow> get_objects_body endpoint parser st w
           = Leave (Inr (parsed_objects st @ objs)) (query st) w'"
  by (simp add: get_objects_body_def)

lemma direction_cursor:
  "get_paging_direction c = Some d \<Longrightarrow> \<exists>tok. cursor_get c d = Some tok"
  by (cases d) (auto simp: get_paging_direction_def split: if_splits)

lemma body_first_more:
  "endpoint (query st) w = (Page results, w') \<Longrightarrow> parser results = Inr objs
     \<Longrightarrow> is_first_page st \<Longrightarrow> get_paging_direction (cursor results) = Some d
     \<Longrightarrow> cursor_get (cursor results) d = Some tok
     \<Longrightarrow> get_objects_body endpoint parser st w
           = Again \<lparr> query = AList.update (direction_key d) (QStr tok) (query st),
                     paging_direction = Some d, is_first_page = False,
                     parsed_objects = parsed_objects st @ objs \<rparr> w'"
  by (simp add: get_objects_body_def)

lemma body_later_last:
  "endpoint (query st) w = (Page results, w') \<Longrightarrow> parser results = Inr objs
     \<Longrightarrow> \<not> is_first_page st \<Longrightarrow> paging_direction st = Some d
     \<Longrightarrow> cursor_get (cursor results) d = None
     \<Longrightarrow> get_objects_body endpoint parser st w
           = Leave (Inr (parsed_objects st @ objs)) (query st) w'"
  by (simp add: get_objects_body_def)

lemma body_later_more:
  "endpoint (query st) w = (Page results, w') \<Longrightarrow> parser results = Inr objs
     \<Longrightarrow> \<not> is_first_page st \<Longrightarrow> paging_direction st = Some d
     \<Longrightarrow> cursor_get (cursor results) d = Some tok
     \<Longrightarrow> get_objects_body endpoint parser st w
           = Again \<lparr> query = AList.update (direction_key d) (QStr tok) (query st),
                     paging_direction = Some d, is_first_page = False,
                     parsed_objects = parsed_objects st @ objs \<rparr> w'"
  by (simp add: get_objects_body_def)

subsection \<open>Runs against a script\<close>

lemma loop_continuing:
  assumes "paging_direction st = Some d" and "\<not> is_first_page st"
    and "\<forall>x \<in> set ps. parser x = Inr (f x) \<and> cursor_get (cursor x) d \<noteq> None"
  shows "\<exists>st' seen'.
           get_objects_loop scripted parser st (map Page ps @ rs, seen)
             = get_objects_loop scripted parser st' (rs, seen')
           \<and> length seen' = length seen + length ps
           \<and> paging_direction st' = Some d \<and> \<not> is_first_page st'
           \<and> parsed_objects st' = parsed_objects st @ concat (map f ps)"
  using assms
proof (induction ps arbitrary: st seen)
  case Nil
  then show ?case by auto
next
  case (Cons p ps)
  from Cons.prems(3) obtain tok where p: "parser p = Inr (f p)" "cursor_get (cursor p) d = Some tok"
    by auto
  let ?st1 = "\<lparr> query = AList.update (direction_key d) (QStr tok) (query st),
                 paging_direction = Some d, is_first_page = False,
                 parsed_objects = parsed_objects st @ f p \<rparr>"
  have ep: "scripted (query st) (map Page (p # ps) @ rs, seen)
              = (Page p, (map Page ps @ rs, seen @ [query st]))" by simp
  have step: "get_objects_loop scripted parser st (map Page (p # ps) @ rs, seen)
          = get_objects_loop scripted parser ?st1 (map Page ps @ rs, seen @ [query st])"
    by (rule loop_again,
        rule body_later_more[where endpoint = scripted and parser = parser and st = st,
                             OF ep p(1) Cons.prems(2) Cons.prems(1) p(2)])
  have "\<forall>x \<in> set ps. parser x = Inr (f x) \<and> cursor_get (cursor x) d \<noteq> None"
    using Cons.prems(3) by simp
  from Cons.IH[of ?st1 "seen @ [query st]", OF _ _ this]
  obtain st' seen' where
    "get_objects_loop scripted parser ?st1 (map Page ps @ rs, seen @ [query st])
       = get_objects_loop scripted parser st' (rs, seen')"
    "length seen' = length (seen @ [query st]) + length ps"
    "paging_direction st' = Some d" "\<not> is_first_page st'"
    "parsed_objects st' = parsed_objects ?st1 @ concat (map f ps)"
    by auto
  then show ?case using step by (intro exI[of _ st'] exI[of _ seen']) simp
qed


lemma first_page_more:
  assumes "get_paging_direction (cursor p) = Some d" and "parser p = Inr objs"
  shows "\<exists>st1. get_objects scripted parser q (Page p # rs, [])
                  = get_objects_loop scripted parser st1 (rs, [q])
               \<and> paging_direction st1 = Some d \<and> \<not> is_first_page st1
               \<and> parsed_objects st1 = objs
               \<and> (\<exists>tok. cursor_get (cursor p) d = Some tok
                     \<and> query st1 = AList.update (direction_key d) (QStr tok) q)"
proof -
  from direction_cursor[OF assms(1)] obtain tok where tok: "cursor_get (cursor p) d = Some tok" ..
  let ?st0 = "\<lparr> query = q, paging_direction = None, is_first_page = True, parsed_objects = [] \<rparr>"
  let ?st1 = "\<lparr> query = AList.update (direction_key d) (QStr tok) (query ?st0),
                 paging_direction = Some d, is_first_page = False,
                 parsed_objects = parsed_objects ?st0 @ objs \<rparr>"
  have ep: "scripted (query ?st0) (Page p # rs, []) = (Page p, (rs, [q]))" by simp
  have "get_objects_body scripted parser ?st0 (Page p # rs, []) = Again ?st1 (rs, [q])"
    by (rule body_first_more[where endpoint = scripted and parser = parser and st = ?st0,
                             where objs = objs, OF ep assms(2) _ assms(1) tok]) simp
  then have "get_objects scripted parser q (Page p # rs, [])
               = get_objects_loop scripted parser ?st1 (rs, [q])"
    unfolding get_objects_def by (rule loop_again)
  then show ?thesis using tok by (intro exI[of _ ?st1]) simp
qed

text \<open>
  Claim C6, as the code has it. An exception of the parse operation leaves the loop,
  so the pages after it are not fetched. The server plays a sequence of N pages,
  followed by anything. If the
  cursor field of the direction locked on the first page is non-null on the pages
  1 to N-1 and null on page N, and the parse operation returns normally on each page,
  then \<^verbatim>\<open>_get_objects\<close> returns the records of the N pages in order, the server has
  received exactly N queries and the rest of the script is untouched. If both cursor
  fields of the first page are null, exactly one query is sent and the traversal
  ends with what the parse operation gives for that page.
\<close>

theorem get_objects_fetch_count:
  "(get_paging_direction (cursor p) = Some d
      \<and> (\<forall>x \<in> set (p # ps). parser x = Inr (f x))
      \<and> (\<forall>x \<in> set (butlast (p # ps)). cursor_get (cursor x) d \<noteq> None)
      \<and> cursor_get (cursor (last (p # ps))) d = None
    \<longrightarrow> (\<exists>qf seen. get_objects scripted parser q (map Page (p # ps) @ rest, [])
                       = Some (Inr (concat (map f (p # ps))), qf, (rest, seen))
                   \<and> length seen = length (p # ps)))
   \<and> (before (cursor p) = None \<and> after (cursor p) = None
    \<longrightarrow> get_objects scripted parser q (Page p # rest, []) = Some (parser p, q, (rest, [q])))"
proof (intro conjI impI)
  assume h: "get_paging_direction (cursor p) = Some d
      \<and> (\<forall>x \<in> set (p # ps). parser x = Inr (f x))
      \<and> (\<forall>x \<in> set (butlast (p # ps)). cursor_get (cursor x) d \<noteq> None)
      \<and> cursor_get (cursor (last (p # ps))) d = None"
  then have dir: "get_paging_direction (cursor p) = Some d" by simp
  have "ps \<noteq> []"
  proof
    assume "ps = []"
    with h have "cursor_get (cursor p) d = None" by simp
    with direction_cursor[OF dir] show False by simp
  qed
  then obtain ms l where ps: "ps = ms @ [l]" by (meson rev_exhaust)
  from h ps have fp: "parser p = Inr (f p)" and fl: "parser l = Inr (f l)"
    and lnone: "cursor_get (cursor l) d = None"
    and mid: "\<forall>x \<in> set ms. parser x = Inr (f x) \<and> cursor_get (cursor x) d \<noteq> None"
    by (auto simp: butlast_append)
  from first_page_more[where parser = parser and q = q and rs = "map Page ps @ rest", OF dir fp] obtain st1 where st1:
    "get_objects scripted parser q (Page p # map Page ps @ rest, [])
       = get_objects_loop scripted parser st1 (map Page ps @ rest, [q])"
    "paging_direction st1 = Some d" "\<not> is_first_page st1" "parsed_objects st1 = f p"
    by blast
  from loop_continuing[OF st1(2) st1(3) mid, of "Page l # rest" "[q]"] obtain st2 seen2 where st2:
    "get_objects_loop scripted parser st1 (map Page ms @ Page l # rest, [q])
       = get_objects_loop scripted parser st2 (Page l # rest, seen2)"
    "length seen2 = length [q] + length ms"
    "paging_direction st2 = Some d" "\<not> is_first_page st2"
    "parsed_objects st2 = parsed_objects st1 @ concat (map f ms)"
    by blast
  have ep: "scripted (query st2) (Page l # rest, seen2) = (Page l, (rest, seen2 @ [query st2]))"
    by simp
  have fin: "get_objects_loop scripted parser st2 (Page l # rest, seen2)
          = Some (Inr (parsed_objects st2 @ f l), query st2, (rest, seen2 @ [query st2]))"
    by (rule loop_leave,
        rule body_later_last[where endpoint = scripted and parser = parser and st = st2,
                             OF ep fl st2(4) st2(3) lnone])
  have "get_objects scripted parser q (map Page (p # ps) @ rest, [])
          = Some (Inr (concat (map f (p # ps))), query st2, (rest, seen2 @ [query st2]))"
    using st1 st2 fin ps by simp
  moreover have "length (seen2 @ [query st2]) = length (p # ps)"
    using st2(2) ps by simp
  ultimately show "\<exists>qf seen. get_objects scripted parser q (map Page (p # ps) @ rest, [])
                       = Some (Inr (concat (map f (p # ps))), qf, (rest, seen))
                   \<and> length seen = length (p # ps)"
    by blast
next
  assume h: "before (cursor p) = None \<and> after (cursor p) = None"
  let ?st0 = "\<lparr> query = q, paging_direction = None, is_first_page = True, parsed_objects = [] \<rparr>"
  have ep: "scripted (query ?st0) (Page p # rest, []) = (Page p, (rest, [q]))" by simp
  have none: "get_paging_direction (cursor p) = None"
    using h by (simp add: get_paging_direction_def)
  have "get_objects_body scripted parser ?st0 (Page p # rest, [])
          = Leave (parser p) (query ?st0) (rest, [q])"
  proof (cases "parser p")
    case (Inl e)
    from body_parser_raises[where endpoint = scripted and parser = parser and st = ?st0,
                            OF ep Inl] Inl
    show ?thesis by simp
  next
    case (Inr objs)
    have "get_objects_body scripted parser ?st0 (Page p # rest, [])
            = Leave (Inr (parsed_objects ?st0 @ objs)) (query ?st0) (rest, [q])"
      by (rule body_first_single[where endpoint = scripted and parser = parser and st = ?st0,
                                 OF ep Inr _ none]) simp
    with Inr show ?thesis by simp
  qed
  then show "get_objects scripted parser q (Page p # rest, []) = Some (parser p, q, (rest, [q]))"
    unfolding get_objects_def by (simp add: loop_leave)
qed

text \<open>
  Claim C6 as stated fails: three pages of transactions have the \<^verbatim>\<open>before\<close> cursor
  field non-null on the first two and null on the third, but the second holds an entry
  of kind "comment" with an empty comment list; the comment parser raises on it, and
  the server has received two queries, the third page staying in the script.
\<close>

theorem get_objects_fetch_count_counterexample:
  "get_paging_direction (cursor comment_page_1) = Some Before
   \<and> cursor_get (cursor comment_page_1) Before = Some ''90''
   \<and> cursor_get (cursor comment_page_2) Before = Some ''80''
   \<and> cursor_get (cursor comment_page_3) Before = None
   \<and> get_objects scripted (\<lambda>results. comment_parser results 100) comments_query
         ([Page comment_page_1, Page comment_page_2, Page comment_page_3], [])
       = Some (Inl IndexError, comments_query @ [(''before'', QStr ''90'')],
               ([Page comment_page_3],
                [comments_query, comments_query @ [(''before'', QStr ''90'')]]))"
  by (simp add: get_objects_def get_objects_loop.simps get_objects_body_def
        comment_page_1_def comment_page_2_def comment_page_3_def comment_parser_def
        entry_at_def entry_empty_def entry_old_def comment_at_def comment_old_def
        get_paging_direction_def Let_def comments_query_def)

text \<open>
  Claim C7. At any iteration, whatever the page-fetch operation and the locals of the
  loop, if the page-fetch operation returns \<^verbatim>\<open>None\<close> the loop returns normally with
  exactly the records accumulated so far. Against a script: \<^verbatim>\<open>None\<close> at the first
  call gives the empty list after one query, and \<^verbatim>\<open>None\<close> after k pages that all
  parse and all carry a cursor in the locked direction gives the records of these k
  pages after k + 1 queries.
\<close>

theorem get_objects_empty_response:
  "(endpoint (query st) w = (NoResult, w')
      \<longrightarrow> get_objects_loop endpoint parser st w = Some (Inr (parsed_objects st), query st, w'))
   \<and> get_objects scripted parser' q (NoResult # rest, []) = Some (Inr [], q, (rest, [q]))
   \<and> (get_paging_direction (cursor p) = Some d
        \<and> (\<forall>x \<in> set (p # ps). parser' x = Inr (f x) \<and> cursor_get (cursor x) d \<noteq> None)
      \<longrightarrow> (\<exists>qf seen. get_objects scripted parser' q (map Page (p # ps) @ NoResult # rest, [])
                         = Some (Inr (concat (map f (p # ps))), qf, (rest, seen))
                     \<and> length seen = Suc (length (p # ps))))"
proof (intro conjI impI)
  assume "endpoint (query st) w = (NoResult, w')"
  then show "get_objects_loop endpoint parser st w = Some (Inr (parsed_objects st), query st, w')"
    by (intro loop_leave body_no_result)
next
  let ?st0 = "\<lparr> query = q, paging_direction = None, is_first_page = True, parsed_objects = [] \<rparr>"
  have "scripted (query ?st0) (NoResult # rest, []) = (NoResult, (rest, [q]))" by simp
  from loop_leave[OF body_no_result[where endpoint = scripted and st = ?st0, OF this]]
  show "get_objects scripted parser' q (NoResult # rest, []) = Some (Inr [], q, (rest, [q]))"
    unfolding get_objects_def by simp
next
  assume h: "get_paging_direction (cursor p) = Some d
        \<and> (\<forall>x \<in> set (p # ps). parser' x = Inr (f x) \<and> cursor_get (cursor x) d \<noteq> None)"
  then have dir: "get_paging_direction (cursor p) = Some d" and fp: "parser' p = Inr (f p)"
    and mid: "\<forall>x \<in> set ps. parser' x = Inr (f x) \<and> cursor_get (cursor x) d \<noteq> None"
    by simp_all
  from first_page_more[where parser = parser' and q = q and rs = "map Page ps @ NoResult # rest", OF dir fp] obtain st1 where st1:
    "get_objects scripted parser' q (Page p # map Page ps @ NoResult # rest, [])
       = get_objects_loop scripted parser' st1 (map Page ps @ NoResult # rest, [q])"
    "paging_direction st1 = Some d" "\<not> is_first_page st1" "parsed_objects st1 = f p"
    by blast
  from loop_continuing[OF st1(2) st1(3) mid, of "NoResult # rest" "[q]"] obtain st2 seen2 where st2:
    "get_objects_loop scripted parser' st1 (map Page ps @ NoResult # rest, [q])
       = get_objects_loop scripted parser' st2 (NoResult # rest, seen2)"
    "length seen2 = length [q] + length ps"
    "parsed_objects st2 = parsed_objects st1 @ concat (map f ps)"
    by blast
  have ep: "scripted (query st2) (NoResult # rest, seen2) = (NoResult, (rest, seen2 @ [query st2]))"
    by simp
  have fin: "get_objects_loop scripted parser' st2 (NoResult # rest, seen2)
          = Some (Inr (parsed_objects st2), query st2, (rest, seen2 @ [query st2]))"
    by (rule loop_leave,
        rule body_no_result[where endpoint = scripted and st = st2, OF ep])
  have "get_objects scripted parser' q (map Page (p # ps) @ NoResult # rest, [])
          = Some (Inr (concat (map f (p # ps))), query st2, (rest, seen2 @ [query st2]))"
    using st1 st2 fin by simp
  moreover have "length (seen2 @ [query st2]) = Suc (length (p # ps))"
    using st2(2) by simp
  ultimately show "\<exists>qf seen. get_objects scripted parser' q (map Page (p # ps) @ NoResult # rest, [])
                         = Some (Inr (concat (map f (p # ps))), qf, (rest, seen))
                     \<and> length seen = Suc (length (p # ps))"
    by blast
qed


lemmas sample_tasks =
  task_page_1_def task_page_2_def task_page_3_def task_page_single_def

theorem get_objects_fetch_count_witness:
  "(\<exists>qf seen. get_objects scripted task_parser tasks_query
        ([Page task_page_1, Page task_page_2, Page task_page_3, Raise HTTPError], [])
      = Some (Inr [make_task task_a, make_task task_b, make_task task_c], qf,
              ([Raise HTTPError], seen))
      \<and> length seen = 3)
   \<and> get_objects scripted task_parser tasks_query ([Page task_page_single, Raise HTTPError], [])
      = Some (Inr [make_task task_a, make_task task_b], tasks_query,
              ([Raise HTTPError], [tasks_query]))"
  using get_objects_fetch_count [where p = task_page_1 and ps = "[task_page_2, task_page_3]"
          and d = Before and parser = task_parser and f = "\<lambda>x. map make_task (data x)"
          and q = tasks_query and rest = "[Raise HTTPError]"]
    get_objects_fetch_count [where p = task_page_single and ps = "[]"
          and parser = task_parser
          and q = tasks_query and rest = "[Raise HTTPError]"]
  by (simp add: sample_tasks task_parser_def get_paging_direction_def numeral_3_eq_3)

theorem get_objects_empty_response_witness:
  "get_objects scripted task_parser tasks_query ([NoResult, Page task_page_3], [])
      = Some (Inr [], tasks_query, ([Page task_page_3], [tasks_query]))
   \<and> (\<exists>qf seen. get_objects scripted task_parser tasks_query
        ([Page task_page_1, Page task_page_2, NoResult, Page task_page_3], [])
      = Some (Inr [make_task task_a, make_task task_b], qf, ([Page task_page_3], seen))
      \<and> length seen = 3)"
  using get_objects_empty_response [where p = task_page_1 and ps = "[task_page_2]"
          and d = Before and parser' = task_parser and f = "\<lambda>x. map make_task (data x)"
          and q = tasks_query and rest = "[Page task_page_3]"
          and endpoint = scripted and st = "\<lparr> query = tasks_query, paging_direction = None,
             is_first_page = True, parsed_objects = [] \<rparr>"
          and w = "([NoResult, Page task_page_3], [])"
          and w' = "([Page task_page_3], [tasks_query])" and parser = task_parser]
  by (simp add: sample_tasks task_parser_def get_paging_direction_def numeral_3_eq_3)

section \<open>The queries sent during a traversal\<close>

lemma loop_trace:
  assumes "paging_direction st = Some d" and "\<not> is_first_page st"
  shows "\<exists>res qf new.
           get_objects_loop scripted parser st (rs, seen)
             = Some (res, qf, (drop (length new) rs, seen @ new))
           \<and> new \<noteq> [] \<and> hd new = query st \<and> qf = last new
           \<and> (\<forall>i. Suc i < length new \<longrightarrow>
                 (\<exists>pg tok. rs ! i = Page pg \<and> cursor_get (cursor pg) d = Some tok
                    \<and> new ! Suc i = AList.update (direction_key d) (QStr tok) (new ! i)))"
  using assms
proof (induction rs arbitrary: st seen)
  case Nil
  have ep: "scripted (query st) ([], seen) = (Raise HTTPError, ([], seen @ [query st]))" by simp
  have "get_objects_loop scripted parser st ([], seen)
          = Some (Inl HTTPError, query st, ([], seen @ [query st]))"
    by (rule loop_leave, rule body_raise[where endpoint = scripted and st = st, OF ep])
  then show ?case by (intro exI[of _ "Inl HTTPError"] exI[of _ "query st"] exI[of _ "[query st]"]) simp
next
  case (Cons r rs)
  have ep: "scripted (query st) (r # rs, seen) = (r, (rs, seen @ [query st]))" by simp
  have stop: "\<exists>res qf new.
           get_objects_loop scripted parser st (r # rs, seen)
             = Some (res, qf, (drop (length new) (r # rs), seen @ new))
           \<and> new \<noteq> [] \<and> hd new = query st \<and> qf = last new
           \<and> (\<forall>i. Suc i < length new \<longrightarrow>
                 (\<exists>pg tok. (r # rs) ! i = Page pg \<and> cursor_get (cursor pg) d = Some tok
                    \<and> new ! Suc i = AList.update (direction_key d) (QStr tok) (new ! i)))"
    if "get_objects_body scripted parser st (r # rs, seen) = Leave res (query st) (rs, seen @ [query st])"
    for res
    using loop_leave[OF that]
    by (intro exI[of _ res] exI[of _ "query st"] exI[of _ "[query st]"]) simp
  show ?case
  proof (cases r)
    case (Raise e)
    show ?thesis
      by (rule stop, rule body_raise[where endpoint = scripted and st = st]) (use ep Raise in simp)
  next
    case NoResult
    show ?thesis
      by (rule stop, rule body_no_result[where endpoint = scripted and st = st])
         (use ep NoResult in simp)
  next
    case (Page pg)
    with ep have ep': "scripted (query st) (r # rs, seen) = (Page pg, (rs, seen @ [query st]))"
      by simp
    show ?thesis
    proof (cases "parser pg")
      case (Inl e)
      show ?thesis
        by (rule stop,
            rule body_parser_raises[where endpoint = scripted and parser = parser and st = st,
                                    OF ep' Inl])
    next
      case (Inr objs)
      show ?thesis
      proof (cases "cursor_get (cursor pg) d")
        case None
        show ?thesis
          by (rule stop,
              rule body_later_last[where endpoint = scripted and parser = parser and st = st,
                                   OF ep' Inr Cons.prems(2) Cons.prems(1) None])
      next
        case (Some tok)
        let ?st1 = "\<lparr> query = AList.update (direction_key d) (QStr tok) (query st),
                       paging_direction = Some d, is_first_page = False,
                       parsed_objects = parsed_objects st @ objs \<rparr>"
        have step: "get_objects_loop scripted parser st (r # rs, seen)
                = get_objects_loop scripted parser ?st1 (rs, seen @ [query st])"
          by (rule loop_again,
              rule body_later_more[where endpoint = scripted and parser = parser and st = st,
                                   OF ep' Inr Cons.prems(2) Cons.prems(1) Some])
        from Cons.IH[of ?st1 "seen @ [query st]"] obtain res qf new where new:
          "get_objects_loop scripted parser ?st1 (rs, seen @ [query st])
             = Some (res, qf, (drop (length new) rs, (seen @ [query st]) @ new))"
          "new \<noteq> []" "hd new = query ?st1" "qf = last new"
          "\<forall>i. Suc i < length new \<longrightarrow>
                 (\<exists>pg tok. rs ! i = Page pg \<and> cursor_get (cursor pg) d = Some tok
                    \<and> new ! Suc i = AList.update (direction_key d) (QStr tok) (new ! i))"
          by auto
        have first: "new ! 0 = AList.update (direction_key d) (QStr tok) (query st)"
          using new(2,3) by (simp add: hd_conv_nth)
        have links: "\<exists>pg tok. (r # rs) ! i = Page pg \<and> cursor_get (cursor pg) d = Some tok
                    \<and> (query st # new) ! Suc i
                        = AList.update (direction_key d) (QStr tok) ((query st # new) ! i)"
          if "Suc i < length (query st # new)" for i
        proof (cases i)
          case 0
          then show ?thesis using first Page Some by simp
        next
          case (Suc j)
          then have "Suc j < length new" using that by simp
          with new(5) Suc show ?thesis by simp
        qed
        show ?thesis
          using step new(1,2,4) links
          by (intro exI[of _ res] exI[of _ qf] exI[of _ "query st # new"]) simp
      qed
    qed
  qed
qed


lemma update_other_key: "k \<noteq> k' \<Longrightarrow> map_of (AList.update k' v al) k = map_of al k"
  by (simp add: update_conv')

text \<open>
  Claim C2. The server plays any script whose first response is a page with a non-null
  \<^verbatim>\<open>before\<close> cursor field. Then \<^verbatim>\<open>_get_objects\<close> returns, the first query is the
  caller's, a second query is sent when the first page parses, and it is the caller's
  with \<^verbatim>\<open>before\<close> set to the \<^verbatim>\<open>before\<close> token of the first page, and every later
  query is the previous one with the parameter
  \<^verbatim>\<open>before\<close> set to the \<^verbatim>\<open>before\<close> token of the page just received; the parameter
  \<^verbatim>\<open>after\<close> is never assigned, so it stays what it was in the caller's query,
  whatever the \<^verbatim>\<open>after\<close> fields of the later pages are.
\<close>

theorem get_objects_direction_locked:
  assumes "before (cursor p) \<noteq> None"
  shows "\<exists>res qf rest seen.
           get_objects scripted parser q (Page p # rs, []) = Some (res, qf, (rest, seen))
           \<and> seen \<noteq> [] \<and> hd seen = q
           \<and> (\<forall>objs. parser p = Inr objs \<longrightarrow>
                 2 \<le> length seen
                 \<and> (\<exists>tok. before (cursor p) = Some tok
                       \<and> seen ! 1 = AList.update ''before'' (QStr tok) q))
           \<and> (\<forall>i. Suc i < length seen \<longrightarrow>
                 (\<exists>pg tok. (Page p # rs) ! i = Page pg \<and> before (cursor pg) = Some tok
                    \<and> seen ! Suc i = AList.update ''before'' (QStr tok) (seen ! i))
                 \<and> map_of (seen ! Suc i) ''after'' = map_of q ''after'')"
proof -
  let ?st0 = "\<lparr> query = q, paging_direction = None, is_first_page = True, parsed_objects = [] \<rparr>"
  have ep: "scripted (query ?st0) (Page p # rs, []) = (Page p, (rs, [q]))" by simp
  have dir: "get_paging_direction (cursor p) = Some Before"
    using assms by (simp add: get_paging_direction_def)
  show ?thesis
  proof (cases "parser p")
    case (Inl e)
    have "get_objects_body scripted parser ?st0 (Page p # rs, []) = Leave (Inl e) (query ?st0) (rs, [q])"
      by (rule body_parser_raises[where endpoint = scripted and parser = parser and st = ?st0,
                                  OF ep Inl])
    from loop_leave[OF this]
    have "get_objects scripted parser q (Page p # rs, []) = Some (Inl e, q, (rs, [q]))"
      by (simp add: get_objects_def)
    then show ?thesis using Inl by simp
  next
    case (Inr objs)
    from first_page_more[where parser = parser and q = q and rs = rs, OF dir Inr]
    obtain st1 tok where st1:
      "get_objects scripted parser q (Page p # rs, []) = get_objects_loop scripted parser st1 (rs, [q])"
      "paging_direction st1 = Some Before" "\<not> is_first_page st1"
      "cursor_get (cursor p) Before = Some tok"
      "query st1 = AList.update (direction_key Before) (QStr tok) q"
      by blast
    from loop_trace[OF st1(2,3), of parser rs "[q]"] obtain res qf new where new:
      "get_objects_loop scripted parser st1 (rs, [q])
         = Some (res, qf, (drop (length new) rs, [q] @ new))"
      "new \<noteq> []" "hd new = query st1"
      "\<forall>i. Suc i < length new \<longrightarrow>
             (\<exists>pg tok. rs ! i = Page pg \<and> cursor_get (cursor pg) Before = Some tok
                \<and> new ! Suc i = AList.update (direction_key Before) (QStr tok) (new ! i))"
      by blast
    let ?seen = "q # new"
    have first: "new ! 0 = AList.update ''before'' (QStr tok) q"
      using new(2,3) st1(5) by (simp add: hd_conv_nth)
    have links: "\<exists>pg tok. (Page p # rs) ! i = Page pg \<and> before (cursor pg) = Some tok
                    \<and> ?seen ! Suc i = AList.update ''before'' (QStr tok) (?seen ! i)"
      if "Suc i < length ?seen" for i
    proof (cases i)
      case 0
      then show ?thesis using first st1(4) by simp
    next
      case (Suc j)
      then have "Suc j < length new" using that by simp
      with new(4) Suc show ?thesis by simp
    qed
    have after_kept: "map_of (?seen ! i) ''after'' = map_of q ''after''" if "i < length ?seen" for i
      using that
    proof (induction i)
      case 0
      then show ?case by simp
    next
      case (Suc i)
      from links[OF Suc.prems] obtain tok' where
        "?seen ! Suc i = AList.update ''before'' (QStr tok') (?seen ! i)" by blast
      then have "map_of (?seen ! Suc i) ''after'' = map_of (?seen ! i) ''after''"
        by (simp add: update_other_key)
      with Suc show ?case by simp
    qed
    have run: "get_objects scripted parser q (Page p # rs, [])
                 = Some (res, qf, (drop (length new) rs, ?seen))"
      using st1(1) new(1) by simp
    have all: "\<forall>i. Suc i < length ?seen \<longrightarrow>
                 (\<exists>pg tok. (Page p # rs) ! i = Page pg \<and> before (cursor pg) = Some tok
                    \<and> ?seen ! Suc i = AList.update ''before'' (QStr tok) (?seen ! i))
                 \<and> map_of (?seen ! Suc i) ''after'' = map_of q ''after''"
      using links after_kept by blast
    have "?seen \<noteq> [] \<and> hd ?seen = q" by simp
    moreover have "\<forall>objs'. parser p = Inr objs' \<longrightarrow>
                 2 \<le> length ?seen
                 \<and> (\<exists>tok. before (cursor p) = Some tok
                       \<and> ?seen ! 1 = AList.update ''before'' (QStr tok) q)"
      using new(2) first st1(4) by (cases new) auto
    ultimately show ?thesis using run all by blast
  qed
qed

lemma sample_run_three_pages:
  "get_objects scripted task_parser tasks_query
        ([Page task_page_1, Page task_page_2, Page task_page_3], [])
      = Some (Inr [make_task task_a, make_task task_b, make_task task_c],
              tasks_query @ [(''before'', QStr ''200'')],
              ([], [tasks_query, tasks_query @ [(''before'', QStr ''300'')],
                    tasks_query @ [(''before'', QStr ''200'')]]))"
  by (simp add: get_objects_def get_objects_loop.simps get_objects_body_def
         task_page_1_def task_page_2_def task_page_3_def task_parser_def
         get_paging_direction_def Let_def tasks_query_def)

theorem get_objects_direction_locked_witness:
  "before (cursor task_page_1) \<noteq> None
   \<and> get_objects scripted task_parser tasks_query
        (Page task_page_1 # [Page task_page_2, Page task_page_3], [])
      = Some (Inr [make_task task_a, make_task task_b, make_task task_c],
              tasks_query @ [(''before'', QStr ''200'')],
              ([], [tasks_query, tasks_query @ [(''before'', QStr ''300'')],
                    tasks_query @ [(''before'', QStr ''200'')]]))
   \<and> (\<exists>res qf rest seen.
         get_objects scripted task_parser tasks_query
            (Page task_page_1 # [Page task_page_2, Page task_page_3], [])
           = Some (res, qf, (rest, seen))
         \<and> seen \<noteq> [] \<and> hd seen = tasks_query
         \<and> (\<forall>objs. task_parser task_page_1 = Inr objs \<longrightarrow>
               2 \<le> length seen
               \<and> (\<exists>tok. before (cursor task_page_1) = Some tok
                     \<and> seen ! 1 = AList.update ''before'' (QStr tok) tasks_query))
         \<and> (\<forall>i. Suc i < length seen \<longrightarrow>
               (\<exists>pg tok. (Page task_page_1 # [Page task_page_2, Page task_page_3]) ! i = Page pg
                  \<and> before (cursor pg) = Some tok
                  \<and> seen ! Suc i = AList.update ''before'' (QStr tok) (seen ! i))
               \<and> map_of (seen ! Suc i) ''after'' = map_of tasks_query ''after''))"
proof -
  have nonnull: "before (cursor task_page_1) \<noteq> None" by (simp add: task_page_1_def)
  from get_objects_direction_locked [OF nonnull, of task_parser tasks_query
          "[Page task_page_2, Page task_page_3]"]
    sample_run_three_pages nonnull
  show ?thesis by simp
qed

section \<open>What a traversal does to the caller's query\<close>

lemma body_leave_query:
  "get_objects_body endpoint parser st w = Leave r q' w' \<Longrightarrow> q' = query st"
  by (auto simp: get_objects_body_def Let_def
           split: prod.splits response.splits sum.splits option.splits if_splits)

lemma body_again_page:
  "get_objects_body endpoint parser st w = Again st' w'
     \<Longrightarrow> \<exists>pg d tok. endpoint (query st) w = (Page pg, w')
            \<and> (if is_first_page st then get_paging_direction (cursor pg) = Some d
                else paging_direction st = Some d)
            \<and> cursor_get (cursor pg) d = Some tok
            \<and> query st' = AList.update (direction_key d) (QStr tok) (query st)
            \<and> paging_direction st' = Some d \<and> \<not> is_first_page st'"
  by (auto simp: get_objects_body_def Let_def
           split: prod.splits response.splits sum.splits option.splits if_splits)

lemma loop_query_token:
  assumes "get_objects_loop endpoint parser st w = Some y"
  shows "fst (snd y) = query st
     \<or> (\<exists>d tok pg qa wa wb.
           (if is_first_page st
            then (\<exists>p w1. endpoint (query st) w = (Page p, w1)
                        \<and> get_paging_direction (cursor p) = Some d)
            else paging_direction st = Some d)
           \<and> endpoint qa wa = (Page pg, wb) \<and> cursor_get (cursor pg) d = Some tok
           \<and> fst (snd y) = AList.update (direction_key d) (QStr tok) (query st))"
  using assms
proof (induction endpoint parser st w y rule: get_objects_loop.raw_induct[rotated 1, consumes 1])
  case (1 loop endpoint parser st w y)
  show ?case
  proof (cases "get_objects_body endpoint parser st w")
    case (Leave r q' w')
    with 1(2) body_leave_query[OF Leave] show ?thesis by auto
  next
    case (Again st' w')
    with 1(2) have run: "loop endpoint parser st' w' = Some y" by simp
    from body_again_page[OF Again] obtain pg d tok where st':
      "endpoint (query st) w = (Page pg, w')"
      "if is_first_page st then get_paging_direction (cursor pg) = Some d
       else paging_direction st = Some d"
      "cursor_get (cursor pg) d = Some tok"
      "query st' = AList.update (direction_key d) (QStr tok) (query st)"
      "paging_direction st' = Some d" "\<not> is_first_page st'" by blast
    have dir: "if is_first_page st
            then (\<exists>p w1. endpoint (query st) w = (Page p, w1)
                        \<and> get_paging_direction (cursor p) = Some d)
            else paging_direction st = Some d"
      using st'(1,2) by auto
    from 1(1)[OF run] show ?thesis
    proof
      assume "fst (snd y) = query st'"
      with st'(4) have "fst (snd y) = AList.update (direction_key d) (QStr tok) (query st)"
        by simp
      with dir st'(1,3) have "\<exists>d tok pg qa wa wb.
           (if is_first_page st
            then (\<exists>p w1. endpoint (query st) w = (Page p, w1)
                        \<and> get_paging_direction (cursor p) = Some d)
            else paging_direction st = Some d)
           \<and> endpoint qa wa = (Page pg, wb) \<and> cursor_get (cursor pg) d = Some tok
           \<and> fst (snd y) = AList.update (direction_key d) (QStr tok) (query st)"
        by (intro exI[of _ d] exI[of _ tok] exI[of _ pg] exI[of _ "query st"]
                  exI[of _ w] exI[of _ w'] conjI)
      then show ?thesis by (rule disjI2)
    next
      assume "\<exists>d tok pg qa wa wb.
           (if is_first_page st'
            then (\<exists>p w1. endpoint (query st') w' = (Page p, w1)
                        \<and> get_paging_direction (cursor p) = Some d)
            else paging_direction st' = Some d)
           \<and> endpoint qa wa = (Page pg, wb) \<and> cursor_get (cursor pg) d = Some tok
           \<and> fst (snd y) = AList.update (direction_key d) (QStr tok) (query st')"
      then obtain tok' pg' qa wa wb where
        "endpoint qa wa = (Page pg', wb)" "cursor_get (cursor pg') d = Some tok'"
        "fst (snd y) = AList.update (direction_key d) (QStr tok') (query st')"
        using st'(5,6) by auto
      then have last: "endpoint qa wa = (Page pg', wb)" "cursor_get (cursor pg') d = Some tok'"
           "fst (snd y) = AList.update (direction_key d) (QStr tok') (query st)"
        using st'(4) by (simp_all add: update_last)
      with dir have "\<exists>d tok pg qa wa wb.
           (if is_first_page st
            then (\<exists>p w1. endpoint (query st) w = (Page p, w1)
                        \<and> get_paging_direction (cursor p) = Some d)
            else paging_direction st = Some d)
           \<and> endpoint qa wa = (Page pg, wb) \<and> cursor_get (cursor pg) d = Some tok
           \<and> fst (snd y) = AList.update (direction_key d) (QStr tok) (query st)"
        by (intro exI[of _ d] exI[of _ tok'] exI[of _ pg'] exI[of _ qa]
                  exI[of _ wa] exI[of _ wb] conjI)
      then show ?thesis by (rule disjI2)
    qed
  qed
qed

lemma trace_tokens:
  assumes "new \<noteq> []" and "new ! 0 = AList.update k (QStr tok0) q"
    and "r = Page p" and "cursor_get (cursor p) d = Some tok0" and "k = direction_key d"
    and "\<forall>i. Suc i < length new \<longrightarrow>
             (\<exists>pg tok. rs ! i = Page pg \<and> cursor_get (cursor pg) d = Some tok
                \<and> new ! Suc i = AList.update k (QStr tok) (new ! i))"
  shows "i < length new \<Longrightarrow>
           \<exists>pg tok. (r # rs) ! i = Page pg \<and> cursor_get (cursor pg) d = Some tok
              \<and> new ! i = AList.update k (QStr tok) q"
proof (induction i)
  case 0
  then show ?case using assms(2,3,4) by simp
next
  case (Suc i)
  then obtain pg' tok' where prev: "new ! i = AList.update k (QStr tok') q" by auto
  from assms(6) Suc.prems obtain pg tok where
    "rs ! i = Page pg" "cursor_get (cursor pg) d = Some tok"
    "new ! Suc i = AList.update k (QStr tok) (new ! i)" by blast
  then show ?case using prev by (simp add: update_last)
qed

lemma scripted_final_query:
  "\<exists>res qf rest seen.
     get_objects scripted parser q (rs, []) = Some (res, qf, (rest, seen))
     \<and> seen \<noteq> [] \<and> hd seen = q \<and> qf = last seen
     \<and> (length seen = 1 \<longrightarrow> qf = q)
     \<and> (\<forall>n. length seen = Suc (Suc n) \<longrightarrow>
           (\<exists>p pg d tok. rs ! 0 = Page p \<and> get_paging_direction (cursor p) = Some d
              \<and> rs ! n = Page pg \<and> cursor_get (cursor pg) d = Some tok
              \<and> qf = AList.update (direction_key d) (QStr tok) q))"
proof -
  let ?st0 = "\<lparr> query = q, paging_direction = None, is_first_page = True, parsed_objects = [] \<rparr>"
  have single: ?thesis
    if "get_objects_body scripted parser ?st0 (rs, []) = Leave res q' w'" for res q' w'
  proof -
    from body_leave_query[OF that] have q': "q' = q" by simp
    have "w' = (tl rs, [q])"
      using that
      by (cases rs) (auto simp: get_objects_body_def Let_def
               split: response.splits sum.splits option.splits if_splits)
    with loop_leave[OF that] q'
    have "get_objects scripted parser q (rs, []) = Some (res, q, (tl rs, [q]))"
      by (simp add: get_objects_def)
    then show ?thesis by simp
  qed
  show ?thesis
  proof (cases "get_objects_body scripted parser ?st0 (rs, [])")
    case (Leave res q' w')
    then show ?thesis by (rule single)
  next
    case (Again st1 w1)
    from body_again_page[OF Again] obtain p d tok0 where st1:
      "scripted (query ?st0) (rs, []) = (Page p, w1)"
      "get_paging_direction (cursor p) = Some d"
      "cursor_get (cursor p) d = Some tok0"
      "query st1 = AList.update (direction_key d) (QStr tok0) q"
      "paging_direction st1 = Some d" "\<not> is_first_page st1" by auto
    from st1(1) obtain rs' where rs: "rs = Page p # rs'" and w1: "w1 = (rs', [q])"
      by (cases rs) auto
    from loop_trace[OF st1(5,6), of parser rs' "[q]"] obtain res qf new where new:
      "get_objects_loop scripted parser st1 (rs', [q])
         = Some (res, qf, (drop (length new) rs', [q] @ new))"
      "new \<noteq> []" "hd new = query st1" "qf = last new"
      "\<forall>i. Suc i < length new \<longrightarrow>
             (\<exists>pg tok. rs' ! i = Page pg \<and> cursor_get (cursor pg) d = Some tok
                \<and> new ! Suc i = AList.update (direction_key d) (QStr tok) (new ! i))"
      by blast
    have first: "new ! 0 = AList.update (direction_key d) (QStr tok0) q"
      using new(2,3) st1(4) by (simp add: hd_conv_nth)
    note toks = trace_tokens[OF new(2) first refl st1(3) refl new(5)]
    have run: "get_objects scripted parser q (rs, [])
                 = Some (res, qf, (drop (length new) rs', q # new))"
      using loop_again[OF Again] new(1) w1 by (simp add: get_objects_def)
    have final: "\<exists>p' pg d' tok. rs ! 0 = Page p' \<and> get_paging_direction (cursor p') = Some d'
              \<and> rs ! n = Page pg \<and> cursor_get (cursor pg) d' = Some tok
              \<and> qf = AList.update (direction_key d') (QStr tok) q"
      if "length (q # new) = Suc (Suc n)" for n
    proof -
      from that have n: "length new = Suc n" by simp
      then have "n < length new" by simp
      from toks[OF this] obtain pg tok where
        "(Page p # rs') ! n = Page pg" "cursor_get (cursor pg) d = Some tok"
        "new ! n = AList.update (direction_key d) (QStr tok) q" by blast
      moreover have "qf = new ! n" using new(2,4) n by (simp add: last_conv_nth)
      ultimately show ?thesis using rs st1(2) by auto
    qed
    have "qf = last (q # new)" using new(2,4) by simp
    moreover have "length (q # new) \<noteq> 1" using new(2) by simp
    ultimately show ?thesis using run final
      by (intro exI[of _ res] exI[of _ qf] exI[of _ "drop (length new) rs'"]
                exI[of _ "q # new"]) simp
  qed
qed


text \<open>
  Claim C8, as the code has it. \<^verbatim>\<open>_get_objects\<close> assigns into the dictionary the
  caller passed: \<^verbatim>\<open>query[paging_direction] = ...\<close>. Whatever the page-fetch and
  page-parse operations, when the traversal returns the caller's dictionary is either
  what it was, or what it was with the key of the direction locked on the first page
  (\<^verbatim>\<open>before\<close> or \<^verbatim>\<open>after\<close>) set to the token that a page returned by the page-fetch
  operation carries in that cursor field; every other key keeps its value. Against a
  script the dictionary is told exactly: the traversal returns, the dictionary is then
  the last query sent; after one query it is the caller's, and after n + 2 queries it
  is the caller's with the key of the direction locked on the first page set to the
  token of that cursor field of page n + 1, the last page whose cursor was followed.
  The world changes only through the calls of the page-fetch operation; the line that
  \<^verbatim>\<open>logging.info\<close> writes on an empty response is not part of the model.
\<close>

theorem get_objects_query_frame:
  "(get_objects endpoint parser q w = Some (res, qf, w') \<longrightarrow>
      (qf = q
       \<or> (\<exists>p w1 d pg qa wa wb tok.
             endpoint q w = (Page p, w1) \<and> get_paging_direction (cursor p) = Some d
             \<and> endpoint qa wa = (Page pg, wb) \<and> cursor_get (cursor pg) d = Some tok
             \<and> qf = AList.update (direction_key d) (QStr tok) q))
      \<and> (\<forall>k. k \<noteq> ''before'' \<and> k \<noteq> ''after'' \<longrightarrow> map_of qf k = map_of q k))
   \<and> (\<exists>res qf rest seen.
         get_objects scripted parser' q (rs, []) = Some (res, qf, (rest, seen))
         \<and> seen \<noteq> [] \<and> hd seen = q \<and> qf = last seen
         \<and> (length seen = 1 \<longrightarrow> qf = q)
         \<and> (\<forall>n. length seen = Suc (Suc n) \<longrightarrow>
               (\<exists>p pg d tok. rs ! 0 = Page p \<and> get_paging_direction (cursor p) = Some d
                  \<and> rs ! n = Page pg \<and> cursor_get (cursor pg) d = Some tok
                  \<and> qf = AList.update (direction_key d) (QStr tok) q)))"
proof (intro conjI impI)
  assume run: "get_objects endpoint parser q w = Some (res, qf, w')"
  from loop_query_token[OF run[unfolded get_objects_def]]
  show a: "qf = q
       \<or> (\<exists>p w1 d pg qa wa wb tok.
             endpoint q w = (Page p, w1) \<and> get_paging_direction (cursor p) = Some d
             \<and> endpoint qa wa = (Page pg, wb) \<and> cursor_get (cursor pg) d = Some tok
             \<and> qf = AList.update (direction_key d) (QStr tok) q)"
    by simp blast
  show "\<forall>k. k \<noteq> ''before'' \<and> k \<noteq> ''after'' \<longrightarrow> map_of qf k = map_of q k"
  proof (intro allI impI)
    fix k :: string
    assume k: "k \<noteq> ''before'' \<and> k \<noteq> ''after''"
    have "k \<noteq> direction_key d" for d using k by (cases d) simp_all
    with a show "map_of qf k = map_of q k" by (auto simp: update_conv')
  qed
next
  show "\<exists>res qf rest seen.
         get_objects scripted parser' q (rs, []) = Some (res, qf, (rest, seen))
         \<and> seen \<noteq> [] \<and> hd seen = q \<and> qf = last seen
         \<and> (length seen = 1 \<longrightarrow> qf = q)
         \<and> (\<forall>n. length seen = Suc (Suc n) \<longrightarrow>
               (\<exists>p pg d tok. rs ! 0 = Page p \<and> get_paging_direction (cursor p) = Some d
                  \<and> rs ! n = Page pg \<and> cursor_get (cursor pg) d = Some tok
                  \<and> qf = AList.update (direction_key d) (QStr tok) q))"
    by (rule scripted_final_query)
qed

text \<open>
  Claim C8 as stated fails: after a traversal of two pages the caller's query
  dictionary holds the key \<^verbatim>\<open>before\<close>, which it did not hold at the call.
\<close>

theorem get_objects_query_unchanged_counterexample:
  "get_objects scripted task_parser tasks_query ([Page task_page_1, Page task_page_3], [])
     = Some (Inr [make_task task_a, make_task task_c],
             tasks_query @ [(''before'', QStr ''300'')],
             ([], [tasks_query, tasks_query @ [(''before'', QStr ''300'')]]))
   \<and> tasks_query @ [(''before'', QStr ''300'')] \<noteq> tasks_query"
  by (simp add: get_objects_def get_objects_loop.simps get_objects_body_def
         task_page_1_def task_page_3_def task_parser_def
         get_paging_direction_def Let_def tasks_query_def)

theorem get_objects_query_frame_witness:
  "get_objects scripted task_parser tasks_query ([Page task_page_1, Page task_page_3], [])
     = Some (Inr [make_task task_a, make_task task_c],
             tasks_query @ [(''before'', QStr ''300'')],
             ([], [tasks_query, tasks_query @ [(''before'', QStr ''300'')]]))
   \<and> get_paging_direction (cursor task_page_1) = Some Before
   \<and> cursor_get (cursor task_page_1) Before = Some ''300''
   \<and> tasks_query @ [(''before'', QStr ''300'')]
       = AList.update (direction_key Before) (QStr ''300'') tasks_query
   \<and> map_of (tasks_query @ [(''before'', QStr ''300'')]) ''queryKey''
       = map_of tasks_query ''queryKey''
   \<and> map_of (tasks_query @ [(''before'', QStr ''300'')]) ''constraints[modifiedStart]''
       = map_of tasks_query ''constraints[modifiedStart]''
   \<and> (\<exists>res qf rest seen.
         get_objects scripted task_parser tasks_query ([Page task_page_1, Page task_page_3], [])
           = Some (res, qf, (rest, seen))
         \<and> seen \<noteq> [] \<and> hd seen = tasks_query \<and> qf = last seen
         \<and> (length seen = 1 \<longrightarrow> qf = tasks_query)
         \<and> (\<forall>n. length seen = Suc (Suc n) \<longrightarrow>
               (\<exists>p pg d tok. [Page task_page_1, Page task_page_3] ! 0 = Page p
                  \<and> get_paging_direction (cursor p) = Some d
                  \<and> [Page task_page_1, Page task_page_3] ! n = Page pg
                  \<and> cursor_get (cursor pg) d = Some tok
                  \<and> qf = AList.update (direction_key d) (QStr tok) tasks_query)))"
proof -
  have run: "get_objects scripted task_parser tasks_query ([Page task_page_1, Page task_page_3], [])
     = Some (Inr [make_task task_a, make_task task_c],
             tasks_query @ [(''before'', QStr ''300'')],
             ([], [tasks_query, tasks_query @ [(''before'', QStr ''300'')]]))"
    by (simp add: get_objects_def get_objects_loop.simps get_objects_body_def
         task_page_1_def task_page_3_def task_parser_def
         get_paging_direction_def Let_def tasks_query_def)
  have facts: "get_paging_direction (cursor task_page_1) = Some Before"
    "cursor_get (cursor task_page_1) Before = Some ''300''"
    "tasks_query @ [(''before'', QStr ''300'')]
       = AList.update (direction_key Before) (QStr ''300'') tasks_query"
    by (simp_all add: task_page_1_def get_paging_direction_def tasks_query_def)
  note inst = get_objects_query_frame [where endpoint = scripted and parser = task_parser
      and q = tasks_query and w = "([Page task_page_1, Page task_page_3], [])"
      and res = "Inr [make_task task_a, make_task task_c]"
      and qf = "tasks_query @ [(''before'', QStr ''300'')]"
      and w' = "([], [tasks_query, tasks_query @ [(''before'', QStr ''300'')]])"
      and parser' = task_parser and rs = "[Page task_page_1, Page task_page_3]"]
  from inst run have keys: "\<forall>k. k \<noteq> ''before'' \<and> k \<noteq> ''after'' \<longrightarrow>
      map_of (tasks_query @ [(''before'', QStr ''300'')]) k = map_of tasks_query k"
    by blast
  from inst have script: "\<exists>res qf rest seen.
         get_objects scripted task_parser tasks_query ([Page task_page_1, Page task_page_3], [])
           = Some (res, qf, (rest, seen))
         \<and> seen \<noteq> [] \<and> hd seen = tasks_query \<and> qf = last seen
         \<and> (length seen = 1 \<longrightarrow> qf = tasks_query)
         \<and> (\<forall>n. length seen = Suc (Suc n) \<longrightarrow>
               (\<exists>p pg d tok. [Page task_page_1, Page task_page_3] ! 0 = Page p
                  \<and> get_paging_direction (cursor p) = Some d
                  \<and> [Page task_page_1, Page task_page_3] ! n = Page pg
                  \<and> cursor_get (cursor pg) d = Some tok
                  \<and> qf = AList.update (direction_key d) (QStr tok) tasks_query))"
    by blast
  have k1: "map_of (tasks_query @ [(''before'', QStr ''300'')]) ''queryKey''
       = map_of tasks_query ''queryKey''" using keys by simp
  have k2: "map_of (tasks_query @ [(''before'', QStr ''300'')]) ''constraints[modifiedStart]''
       = map_of tasks_query ''constraints[modifiedStart]''" using keys by simp
  from run facts k1 k2 script show ?thesis by (intro conjI)
qed

section \<open>Wiki pages with the same phid\<close>

subsection \<open>One page of wiki rows\<close>

lemma wiki_parser_loop_keys:
  "fst ` set (wiki_parser_loop rows wm acc)
     = fst ` set acc \<union> {wiki_phid r | r. r \<in> set rows \<and> wm \<le> wiki_dateModified r}"
proof (induction rows arbitrary: acc)
  case Nil
  then show ?case by simp
next
  case (Cons r rows)
  show ?case
    by (cases "wm \<le> wiki_dateModified r") (auto simp: Cons.IH dom_update)
qed

lemma wiki_parser_loop_distinct:
  "distinct (map fst acc) \<Longrightarrow> distinct (map fst (wiki_parser_loop rows wm acc))"
  by (induction rows arbitrary: acc) (auto simp: distinct_update)

lemma update_entries:
  "(k', v') \<in> set (AList.update k v al) \<Longrightarrow> (k', v') = (k, v) \<or> (k', v') \<in> set al"
  by (induction al) (auto split: if_splits)

lemma wiki_parser_loop_phid:
  "\<forall>(k, v) \<in> set acc. phid (base v) = k
     \<Longrightarrow> \<forall>(k, v) \<in> set (wiki_parser_loop rows wm acc). phid (base v) = k"
proof (induction rows arbitrary: acc)
  case Nil
  then show ?case by simp
next
  case (Cons r rows)
  have "\<forall>(k, v) \<in> set (AList.update (wiki_phid r) (make_wiki r) acc). phid (base v) = k"
    using Cons.prems by (auto dest!: update_entries simp: make_wiki_def)
  then show ?case using Cons by simp
qed

lemma wiki_parser_phids:
  assumes "wiki_parser results wm = Inr out"
  shows "distinct (map (\<lambda>obj. phid (base obj)) out)
       \<and> set (map (\<lambda>obj. phid (base obj)) out)
           = {wiki_phid r | r. r \<in> set (data results) \<and> wm \<le> wiki_dateModified r}"
proof -
  let ?al = "wiki_parser_loop (data results) wm []"
  have out: "out = map snd ?al" using assms by (simp add: wiki_parser_def)
  have "\<forall>(k, v) \<in> set ?al. phid (base v) = k"
    by (rule wiki_parser_loop_phid) simp
  then have "map (\<lambda>obj. phid (base obj)) out = map fst ?al"
    unfolding out by (auto simp: case_prod_unfold)
  moreover have "distinct (map fst ?al)" by (rule wiki_parser_loop_distinct) simp
  moreover have "set (map fst ?al)
      = {wiki_phid r | r. r \<in> set (data results) \<and> wm \<le> wiki_dateModified r}"
    using wiki_parser_loop_keys[of "data results" wm "[]"] by simp
  ultimately show ?thesis by simp
qed

lemma distinct_count:
  "distinct (map g xs) \<Longrightarrow> length (filter (\<lambda>y. g y = x) xs) = (if x \<in> g ` set xs then 1 else 0)"
  by (induction xs) auto

lemma wiki_parser_count:
  assumes "wiki_parser results wm = Inr out"
  shows "length (filter (\<lambda>obj. phid (base obj) = x) out)
       = (if \<exists>r \<in> set (data results). wiki_phid r = x \<and> wm \<le> wiki_dateModified r then 1 else 0)"
proof -
  from wiki_parser_phids[OF assms] have d: "distinct (map (\<lambda>obj. phid (base obj)) out)"
    and s: "(\<lambda>obj. phid (base obj)) ` set out
           = {wiki_phid r | r. r \<in> set (data results) \<and> wm \<le> wiki_dateModified r}"
    by simp_all
  have "(x \<in> (\<lambda>obj. phid (base obj)) ` set out)
          = (\<exists>r \<in> set (data results). wiki_phid r = x \<and> wm \<le> wiki_dateModified r)"
    unfolding s by auto
  with distinct_count[OF d, of x] show ?thesis by simp
qed


subsection \<open>The pages that make up the output\<close>

lemma body_page:
  "endpoint (query st) w = (Page pg, w') \<Longrightarrow> parser pg = Inr objs \<Longrightarrow>
     get_objects_body endpoint parser st w = Leave (Inr (parsed_objects st @ objs)) (query st) w'
     \<or> (\<exists>st'. get_objects_body endpoint parser st w = Again st' w'
               \<and> parsed_objects st' = parsed_objects st @ objs)"
  by (auto simp: get_objects_body_def Let_def split: option.splits)

lemma loop_pages:
  assumes "\<forall>x. parser x = Inr (f x)"
    and "get_objects_loop scripted parser st (rs, seen) = Some (Inr out, qf, (rest, seen'))"
  shows "\<exists>pgs. (rs = map Page pgs @ rest \<or> rs = map Page pgs @ NoResult # rest)
              \<and> out = parsed_objects st @ concat (map f pgs)"
  using assms(2)
proof (induction rs arbitrary: st seen)
  case Nil
  have ep: "scripted (query st) ([], seen) = (Raise HTTPError, ([], seen @ [query st]))" by simp
  have "get_objects_loop scripted parser st ([], seen)
          = Some (Inl HTTPError, query st, ([], seen @ [query st]))"
    by (rule loop_leave, rule body_raise[where endpoint = scripted and st = st, OF ep])
  with Nil show ?case by simp
next
  case (Cons r rs)
  have ep: "scripted (query st) (r # rs, seen) = (r, (rs, seen @ [query st]))" by simp
  show ?case
  proof (cases r)
    case (Raise e)
    have "get_objects_loop scripted parser st (r # rs, seen)
            = Some (Inl e, query st, (rs, seen @ [query st]))"
      by (rule loop_leave, rule body_raise[where endpoint = scripted and st = st])
         (use ep Raise in simp)
    with Cons.prems show ?thesis by simp
  next
    case NoResult
    have "get_objects_loop scripted parser st (r # rs, seen)
            = Some (Inr (parsed_objects st), query st, (rs, seen @ [query st]))"
      by (rule loop_leave, rule body_no_result[where endpoint = scripted and st = st])
         (use ep NoResult in simp)
    with Cons.prems NoResult show ?thesis by (intro exI[of _ "[]"]) simp
  next
    case (Page pg)
    with ep have ep': "scripted (query st) (r # rs, seen) = (Page pg, (rs, seen @ [query st]))"
      by simp
    have fp: "parser pg = Inr (f pg)" using assms(1) by simp
    from body_page[where endpoint = scripted and parser = parser and st = st, OF ep' fp]
    show ?thesis
    proof
      assume "get_objects_body scripted parser st (r # rs, seen)
                = Leave (Inr (parsed_objects st @ f pg)) (query st) (rs, seen @ [query st])"
      from loop_leave[OF this] Cons.prems Page show ?thesis
        by (intro exI[of _ "[pg]"]) simp
    next
      assume "\<exists>st'. get_objects_body scripted parser st (r # rs, seen)
                      = Again st' (rs, seen @ [query st])
                   \<and> parsed_objects st' = parsed_objects st @ f pg"
      then obtain st' where st':
        "get_objects_body scripted parser st (r # rs, seen) = Again st' (rs, seen @ [query st])"
        "parsed_objects st' = parsed_objects st @ f pg" by blast
      from loop_again[OF st'(1)] Cons.prems
      have "get_objects_loop scripted parser st' (rs, seen @ [query st])
              = Some (Inr out, qf, (rest, seen'))" by simp
      from Cons.IH[OF this] obtain pgs where
        "rs = map Page pgs @ rest \<or> rs = map Page pgs @ NoResult # rest"
        "out = parsed_objects st' @ concat (map f pgs)" by blast
      then show ?thesis using st'(2) Page by (intro exI[of _ "pg # pgs"]) auto
    qed
  qed
qed

lemma scripted_terminates:
  "\<exists>y. get_objects_loop scripted parser st (rs, seen) = Some y"
proof (induction rs arbitrary: st seen)
  case Nil
  have ep: "scripted (query st) ([], seen) = (Raise HTTPError, ([], seen @ [query st]))" by simp
  from loop_leave[OF body_raise[where endpoint = scripted and st = st, OF ep]]
  show ?case by blast
next
  case (Cons r rs)
  show ?case
  proof (cases "get_objects_body scripted parser st (r # rs, seen)")
    case (Leave res q' w')
    from loop_leave[OF this] show ?thesis by blast
  next
    case (Again st' w')
    then have "w' = (rs, seen @ [query st])"
      by (auto simp: get_objects_body_def Let_def
               split: response.splits sum.splits option.splits if_splits)
    with loop_again[OF Again] Cons.IH[of st' "seen @ [query st]"] show ?thesis by simp
  qed
qed

lemma count_concat:
  assumes "\<forall>pg \<in> set pgs. length (filter P (f pg)) = (if Q pg then 1 else 0)"
  shows "length (filter P (concat (map f pgs))) = length (filter Q pgs)"
  using assms by (induction pgs) auto

text \<open>
  Claim C1, as the code has it. The dictionary of \<^verbatim>\<open>_wiki_parser\<close> is created at
  every call, that is for every page, and \<^verbatim>\<open>_get_objects\<close> appends the results of
  the pages. So a traversal of the wiki endpoint always returns against a script, and
  when it returns records they are those of the pages fetched (the pages at the head
  of the script, up to the one that stops the traversal or to a \<^verbatim>\<open>None\<close>): for
  every phid, the output holds one record for each fetched page that has a row with
  that phid and a modification time not older than the watermark. Records of the same
  phid coming from different pages are all kept.
\<close>

theorem wiki_traversal_records_per_page:
  "(\<exists>y. get_objects scripted (\<lambda>results. wiki_parser results wm) q (rs, []) = Some y)
   \<and> (get_objects scripted (\<lambda>results. wiki_parser results wm) q (rs, [])
         = Some (Inr out, qf, (rest, seen))
      \<longrightarrow> (\<exists>pgs. (rs = map Page pgs @ rest \<or> rs = map Page pgs @ NoResult # rest)
             \<and> (\<forall>x. length (filter (\<lambda>obj. phid (base obj) = x) out)
                    = length (filter (\<lambda>pg. \<exists>r \<in> set (data pg).
                                 wiki_phid r = x \<and> wm \<le> wiki_dateModified r) pgs))))"
proof (intro conjI impI)
  show "\<exists>y. get_objects scripted (\<lambda>results. wiki_parser results wm) q (rs, []) = Some y"
    unfolding get_objects_def by (rule scripted_terminates)
next
  let ?f = "\<lambda>results. map snd (wiki_parser_loop (data results) wm [])"
  assume "get_objects scripted (\<lambda>results. wiki_parser results wm) q (rs, [])
         = Some (Inr out, qf, (rest, seen))"
  then have run: "get_objects_loop scripted (\<lambda>results. wiki_parser results wm)
       \<lparr> query = q, paging_direction = None, is_first_page = True, parsed_objects = [] \<rparr> (rs, [])
         = Some (Inr out, qf, (rest, seen))"
    by (simp add: get_objects_def)
  have total: "\<forall>x. (\<lambda>results. wiki_parser results wm) x = Inr (?f x)"
    by (simp add: wiki_parser_def)
  from loop_pages[OF total run] obtain pgs where pgs:
    "rs = map Page pgs @ rest \<or> rs = map Page pgs @ NoResult # rest"
    "out = concat (map ?f pgs)" by auto
  have "length (filter (\<lambda>obj. phid (base obj) = x) out)
          = length (filter (\<lambda>pg. \<exists>r \<in> set (data pg).
                                 wiki_phid r = x \<and> wm \<le> wiki_dateModified r) pgs)" for x
    unfolding pgs(2)
  proof (rule count_concat, rule ballI)
    fix pg
    have "wiki_parser pg wm = Inr (?f pg)" by (simp add: wiki_parser_def)
    from wiki_parser_count[OF this, of x]
    show "length (filter (\<lambda>obj. phid (base obj) = x) (?f pg))
            = (if \<exists>r \<in> set (data pg). wiki_phid r = x \<and> wm \<le> wiki_dateModified r then 1 else 0)" .
  qed
  with pgs(1) show "\<exists>pgs. (rs = map Page pgs @ rest \<or> rs = map Page pgs @ NoResult # rest)
             \<and> (\<forall>x. length (filter (\<lambda>obj. phid (base obj) = x) out)
                    = length (filter (\<lambda>pg. \<exists>r \<in> set (data pg).
                                 wiki_phid r = x \<and> wm \<le> wiki_dateModified r) pgs))"
    by blast
qed

text \<open>
  Claim C1 as stated fails: two pages that each hold a row of the same phid give two
  records with that phid.
\<close>

theorem wiki_traversal_one_record_counterexample:
  "get_objects scripted (\<lambda>results. wiki_parser results 100) wikis_query
       ([Page wiki_page_1, Page wiki_page_2], [])
     = Some (Inr [make_wiki wiki_new, make_wiki wiki_old],
             wikis_query @ [(''after'', QStr ''20'')],
             ([], [wikis_query, wikis_query @ [(''after'', QStr ''20'')]]))
   \<and> phid (base (make_wiki wiki_new)) = ''PHID-WIKI-home''
   \<and> phid (base (make_wiki wiki_old)) = ''PHID-WIKI-home''
   \<and> make_wiki wiki_new \<noteq> make_wiki wiki_old"
  by (simp add: get_objects_def get_objects_loop.simps get_objects_body_def
         wiki_page_1_def wiki_page_2_def wiki_parser_def wiki_new_def wiki_old_def
         get_paging_direction_def Let_def wikis_query_def make_wiki_def)


theorem wiki_traversal_records_per_page_witness:
  "get_objects scripted (\<lambda>results. wiki_parser results 100) wikis_query
       ([Page wiki_page_1, Page wiki_page_2], [])
     = Some (Inr [make_wiki wiki_new, make_wiki wiki_old],
             wikis_query @ [(''after'', QStr ''20'')],
             ([], [wikis_query, wikis_query @ [(''after'', QStr ''20'')]]))
   \<and> length (filter (\<lambda>obj. phid (base obj) = ''PHID-WIKI-home'')
               [make_wiki wiki_new, make_wiki wiki_old]) = 2
   \<and> (\<exists>pgs. ([Page wiki_page_1, Page wiki_page_2] = map Page pgs @ []
              \<or> [Page wiki_page_1, Page wiki_page_2] = map Page pgs @ NoResult # [])
           \<and> (\<forall>x. length (filter (\<lambda>obj. phid (base obj) = x)
                             [make_wiki wiki_new, make_wiki wiki_old])
                  = length (filter (\<lambda>pg. \<exists>r \<in> set (data pg).
                               wiki_phid r = x \<and> 100 \<le> wiki_dateModified r) pgs)))"
proof -
  have run: "get_objects scripted (\<lambda>results. wiki_parser results 100) wikis_query
       ([Page wiki_page_1, Page wiki_page_2], [])
     = Some (Inr [make_wiki wiki_new, make_wiki wiki_old],
             wikis_query @ [(''after'', QStr ''20'')],
             ([], [wikis_query, wikis_query @ [(''after'', QStr ''20'')]]))"
    by (simp add: get_objects_def get_objects_loop.simps get_objects_body_def
         wiki_page_1_def wiki_page_2_def wiki_parser_def wiki_new_def wiki_old_def
         get_paging_direction_def Let_def wikis_query_def make_wiki_def)
  have two: "length (filter (\<lambda>obj. phid (base obj) = ''PHID-WIKI-home'')
               [make_wiki wiki_new, make_wiki wiki_old]) = 2"
    by (simp add: make_wiki_def wiki_new_def wiki_old_def)
  from wiki_traversal_records_per_page [where wm = 100 and q = wikis_query
         and rs = "[Page wiki_page_1, Page wiki_page_2]"
         and out = "[make_wiki wiki_new, make_wiki wiki_old]"
         and qf = "wikis_query @ [(''after'', QStr ''20'')]" and rest = "[]"
         and seen = "[wikis_query, wikis_query @ [(''after'', QStr ''20'')]]"] run
  have "\<exists>pgs. ([Page wiki_page_1, Page wiki_page_2] = map Page pgs @ []
              \<or> [Page wiki_page_1, Page wiki_page_2] = map Page pgs @ NoResult # [])
           \<and> (\<forall>x. length (filter (\<lambda>obj. phid (base obj) = x)
                             [make_wiki wiki_new, make_wiki wiki_old])
                  = length (filter (\<lambda>pg. \<exists>r \<in> set (data pg).
                               wiki_phid r = x \<and> 100 \<le> wiki_dateModified r) pgs))"
    by blast
  with run two show ?thesis by blast
qed

section \<open>The order of the records of a pass\<close>

subsection \<open>The kind of the records of a traversal\<close>

lemma body_result:
  "(\<exists>e q' w'. get_objects_body endpoint parser st w = Leave (Inl e) q' w')
   \<or> (\<exists>q' w'. get_objects_body endpoint parser st w = Leave (Inr (parsed_objects st)) q' w')
   \<or> (\<exists>pg objs q' w'. parser pg = Inr objs
          \<and> get_objects_body endpoint parser st w = Leave (Inr (parsed_objects st @ objs)) q' w')
   \<or> (\<exists>pg objs st' w'. parser pg = Inr objs
          \<and> get_objects_body endpoint parser st w = Again st' w'
          \<and> parsed_objects st' = parsed_objects st @ objs)"
proof -
  obtain r w'' where ep: "endpoint (query st) w = (r, w'')"
    by (cases "endpoint (query st) w")
  show ?thesis
  proof (cases r)
    case (Raise e)
    with ep have "get_objects_body endpoint parser st w = Leave (Inl e) (query st) w''"
      by (simp add: body_raise)
    then show ?thesis by blast
  next
    case NoResult
    with ep have "get_objects_body endpoint parser st w
                    = Leave (Inr (parsed_objects st)) (query st) w''"
      by (simp add: body_no_result)
    then show ?thesis by blast
  next
    case (Page pg)
    with ep have ep': "endpoint (query st) w = (Page pg, w'')" by simp
    show ?thesis
    proof (cases "parser pg")
      case (Inl e)
      from body_parser_raises[where endpoint = endpoint and parser = parser and st = st,
                              OF ep' Inl]
      show ?thesis by blast
    next
      case (Inr objs)
      from body_page[where endpoint = endpoint and parser = parser and st = st, OF ep' Inr] Inr
      show ?thesis by blast
    qed
  qed
qed

lemma loop_list_all:
  assumes "get_objects_loop endpoint parser st w = Some y"
  shows "(\<forall>pg objs. parser pg = Inr objs \<longrightarrow> list_all P objs)
           \<longrightarrow> list_all P (parsed_objects st)
           \<longrightarrow> (\<forall>out. fst y = Inr out \<longrightarrow> list_all P out)"
  using assms
proof (induction endpoint parser st w y rule: get_objects_loop.raw_induct[rotated 1, consumes 1])
  case (1 loop endpoint parser st w y)
  show ?case
  proof (intro impI allI)
    fix out
    assume p: "\<forall>pg objs. parser pg = Inr objs \<longrightarrow> list_all P objs"
      and acc: "list_all P (parsed_objects st)" and y: "fst y = Inr out"
    from body_result[of endpoint parser st w]
    consider
      (raise) e q' w' where "get_objects_body endpoint parser st w = Leave (Inl e) q' w'"
    | (stop) q' w' where
        "get_objects_body endpoint parser st w = Leave (Inr (parsed_objects st)) q' w'"
    | (last) pg objs q' w' where "parser pg = Inr objs"
        "get_objects_body endpoint parser st w = Leave (Inr (parsed_objects st @ objs)) q' w'"
    | (more) pg objs st' w' where "parser pg = Inr objs"
        "get_objects_body endpoint parser st w = Again st' w'"
        "parsed_objects st' = parsed_objects st @ objs"
      by blast
    then show "list_all P out"
    proof cases
      case raise
      with 1(2) y show ?thesis by auto
    next
      case stop
      with 1(2) y acc show ?thesis by auto
    next
      case last
      from last(2) 1(2) y have "out = parsed_objects st @ objs" by auto
      moreover from p last(1) have "list_all P objs" by blast
      ultimately show ?thesis using acc by simp
    next
      case more
      from more(2) 1(2) have run: "loop endpoint parser st' w' = Some y" by simp
      from p more(1) have "list_all P objs" by blast
      with acc more(3) have "list_all P (parsed_objects st')" by simp
      with 1(1)[OF run] p y show ?thesis by blast
    qed
  qed
qed

lemma get_objects_list_all:
  assumes "get_objects endpoint parser q w = Some (Inr out, qf, w')"
    and "\<And>pg objs. parser pg = Inr objs \<Longrightarrow> list_all P objs"
  shows "list_all P out"
  using loop_list_all[OF assms(1)[unfolded get_objects_def], of P] assms(2) by simp

lemma forget_query_Some:
  "forget_query r = Some (res, w') \<Longrightarrow> \<exists>qf. r = Some (res, qf, w')"
  by (cases r) (auto simp: forget_query_def)

lemma comment_parser_loop_comments:
  "comment_parser_loop ts wm acc = Inr out \<Longrightarrow> list_all is_comment acc
     \<Longrightarrow> list_all is_comment out"
proof (induction ts arbitrary: acc)
  case Nil
  then show ?case by simp
next
  case (Cons t ts)
  then show ?case
    by (auto simp: make_comment_def split: if_splits list.splits)
qed

lemma get_object_comments_comments:
  assumes "get_object_comments client obj wm w = Some (Inr out, w')"
  shows "list_all is_comment out"
proof -
  from forget_query_Some[OF assms[unfolded get_object_comments_def]] obtain qf where
    "get_objects (query_transaction client) (\<lambda>results. comment_parser results wm)
       [(''objectIdentifier'', QStr (phid (base obj)))] w = Some (Inr out, qf, w')" ..
  then show ?thesis
    by (rule get_objects_list_all)
       (auto simp: comment_parser_def dest: comment_parser_loop_comments)
qed

lemma get_all_tasks_tasks:
  assumes "get_all_tasks client wm w = Some (Inr out, w')"
  shows "list_all is_task out"
proof -
  from forget_query_Some[OF assms[unfolded get_all_tasks_def]] obtain qf where
    "get_objects (query_maniphest client) task_parser
       [(''queryKey'', QStr ''all''), (''constraints[modifiedStart]'', QInt wm)] w
       = Some (Inr out, qf, w')" ..
  then show ?thesis
    by (rule get_objects_list_all)
       (auto simp: task_parser_def make_task_def list_all_iff)
qed

lemma wiki_parser_loop_wikis:
  "\<forall>(k, v) \<in> set acc. is_wiki v
     \<Longrightarrow> \<forall>(k, v) \<in> set (wiki_parser_loop rows wm acc). is_wiki v"
proof (induction rows arbitrary: acc)
  case Nil
  then show ?case by simp
next
  case (Cons r rows)
  have "\<forall>(k, v) \<in> set (AList.update (wiki_phid r) (make_wiki r) acc). is_wiki v"
    using Cons.prems by (auto dest!: update_entries simp: make_wiki_def)
  then show ?case using Cons by simp
qed

lemma get_all_wikis_wikis:
  assumes "get_all_wikis client wm w = Some (Inr out, w')"
  shows "list_all is_wiki out"
proof -
  from forget_query_Some[OF assms[unfolded get_all_wikis_def]] obtain qf where
    "get_objects (query_phriction client) (\<lambda>results. wiki_parser results wm)
       [(''queryKey'', QStr ''all''), (''attachments[content]'', QBool True),
        (''order'', QStr ''newest'')] w = Some (Inr out, qf, w')" ..
  then show ?thesis
  proof (rule get_objects_list_all)
    fix pg objs
    assume "wiki_parser pg wm = Inr objs"
    then have objs: "objs = map snd (wiki_parser_loop (data pg) wm [])"
      by (simp add: wiki_parser_def)
    have "\<forall>(k, v) \<in> set (wiki_parser_loop (data pg) wm []). is_wiki v"
      by (rule wiki_parser_loop_wikis) simp
    then show "list_all is_wiki objs" unfolding objs by (auto simp: list_all_iff)
  qed
qed


subsection \<open>The merged list\<close>

lemma fetch_all_comments_loop_groups:
  assumes "fetch_all_comments_loop ds docs comments w = Some (Inr out, w')"
  shows "\<exists>groups ws.
           length groups = length docs \<and> length ws = Suc (length docs)
           \<and> ws ! 0 = w \<and> last ws = w'
           \<and> (\<forall>i < length docs.
                 get_object_comments (phab ds) (docs ! i) (last_index_time_timestamp ds) (ws ! i)
                   = Some (Inr (groups ! i), ws ! Suc i))
           \<and> out = comments @ concat groups"
  using assms
proof (induction docs arbitrary: comments w)
  case Nil
  then show ?case by (intro exI[of _ "[]"] exI[of _ "[w]"]) simp
next
  case (Cons d docs)
  let ?wm = "last_index_time_timestamp ds"
  from Cons.prems obtain found w1 where
    first: "get_object_comments (phab ds) d ?wm w = Some (Inr found, w1)"
    and rest: "fetch_all_comments_loop ds docs (comments @ found) w1 = Some (Inr out, w')"
    by (auto split: option.splits sum.splits prod.splits)
  from Cons.IH[OF rest] obtain groups ws where g:
    "length groups = length docs" "length ws = Suc (length docs)"
    "ws ! 0 = w1" "last ws = w'"
    "\<forall>i < length docs. get_object_comments (phab ds) (docs ! i) ?wm (ws ! i)
                   = Some (Inr (groups ! i), ws ! Suc i)"
    "out = (comments @ found) @ concat groups"
    by blast
  have nonempty: "ws \<noteq> []" using g(2) by auto
  have each: "get_object_comments (phab ds) ((d # docs) ! i) ?wm ((w # ws) ! i)
                = Some (Inr ((found # groups) ! i), (w # ws) ! Suc i)"
    if "i < length (d # docs)" for i
  proof (cases i)
    case 0
    then show ?thesis using first g(3) by simp
  next
    case (Suc j)
    then have "j < length docs" using that by simp
    with g(5) Suc show ?thesis by simp
  qed
  show ?case
    using g(1,2,4,6) nonempty each
    by (intro exI[of _ "found # groups"] exI[of _ "w # ws"]) simp
qed

text \<open>
  Claim C3. When the fetches of a pass of \<^verbatim>\<open>_feed_new_documents\<close> return normally,
  whatever \<^verbatim>\<open>_index_all_documents\<close> does afterwards, the list handed to
  \<^verbatim>\<open>_index_all_documents\<close> is: the tasks that \<^verbatim>\<open>get_all_tasks\<close> returned (all
  of them task records, in the order of the traversal), then the wiki pages that
  \<^verbatim>\<open>get_all_wikis\<close> returned (fetched before the tasks, placed after them), then the
  comments, all of them comment records: one group for each of these tasks and wiki
  pages, in that order, the group of a parent being what \<^verbatim>\<open>get_object_comments\<close>
  returned for it, each call starting in the world the previous one left.
\<close>

theorem feed_new_documents_order:
  assumes "feed_new_documents fromtimestamp ds w = Some (Inr fed, w')"
  shows "\<exists>wikis w1 tasks w2 groups ws.
           get_all_wikis (phab ds) (last_index_time_timestamp ds) w = Some (Inr wikis, w1)
           \<and> get_all_tasks (phab ds) (last_index_time_timestamp ds) w1 = Some (Inr tasks, w2)
           \<and> list_all is_task tasks \<and> list_all is_wiki wikis
           \<and> list_all is_comment (concat groups)
           \<and> length groups = length (tasks @ wikis)
           \<and> length ws = Suc (length (tasks @ wikis))
           \<and> ws ! 0 = w2 \<and> last ws = w'
           \<and> (\<forall>i < length (tasks @ wikis).
                 get_object_comments (phab ds) ((tasks @ wikis) ! i)
                     (last_index_time_timestamp ds) (ws ! i)
                   = Some (Inr (groups ! i), ws ! Suc i))
           \<and> fed = index_all_documents fromtimestamp (data_source_id ds)
                     (tasks @ wikis @ concat groups)"
proof -
  let ?wm = "last_index_time_timestamp ds"
  from assms obtain objs w2 comments where
    objs: "fetch_all_objects ds w = Some (Inr objs, w2)"
    and comments: "fetch_all_comments ds objs w2 = Some (Inr comments, w')"
    and fed: "fed = index_all_documents fromtimestamp (data_source_id ds) (objs @ comments)"
    by (auto simp: feed_new_documents_def split: option.splits sum.splits prod.splits)
  from objs obtain wikis w1 tasks where
    wikis: "get_all_wikis (phab ds) ?wm w = Some (Inr wikis, w1)"
    and tasks: "get_all_tasks (phab ds) ?wm w1 = Some (Inr tasks, w2)"
    and merged: "objs = tasks @ wikis"
    by (auto simp: fetch_all_objects_def split: option.splits sum.splits prod.splits)
  from fetch_all_comments_loop_groups[OF comments[unfolded fetch_all_comments_def]]
  obtain groups ws where g:
    "length groups = length objs" "length ws = Suc (length objs)"
    "ws ! 0 = w2" "last ws = w'"
    "\<forall>i < length objs. get_object_comments (phab ds) (objs ! i) ?wm (ws ! i)
                   = Some (Inr (groups ! i), ws ! Suc i)"
    "comments = [] @ concat groups"
    by blast
  have "list_all is_comment g" if "g \<in> set groups" for g
  proof -
    from that obtain i where i: "i < length groups" "g = groups ! i"
      by (auto simp: in_set_conv_nth)
    with g(1,5) have "get_object_comments (phab ds) (objs ! i) ?wm (ws ! i)
                   = Some (Inr g, ws ! Suc i)" by simp
    then show ?thesis by (rule get_object_comments_comments)
  qed
  then have kinds: "list_all is_comment (concat groups)"
    by (auto simp: list_all_iff)
  show ?thesis
    using wikis tasks get_all_tasks_tasks[OF tasks] get_all_wikis_wikis[OF wikis]
      kinds g fed merged
    by (intro exI[of _ wikis] exI[of _ w1] exI[of _ tasks] exI[of _ w2]
              exI[of _ groups] exI[of _ ws]) simp
qed


lemma sample_pass:
  "feed_new_documents fromtimestamp_utc sample_source sample_world
     = Some (Inr ([map (\<lambda>d. projr (basic_document fromtimestamp_utc 7 d))
                     [make_task task_a, make_wiki wiki_old,
                      make_comment comment_at, make_comment comment_new]], Inr (Some 4)),
             sample_world_after)"
  by (simp add: feed_new_documents_def fetch_all_objects_def fetch_all_comments_def
        get_all_wikis_def get_all_tasks_def get_object_comments_def forget_query_def
        get_objects_def get_objects_loop.simps get_objects_body_def Let_def
        get_paging_direction_def
        sample_source_def scripted_client_def sample_world_def sample_world_after_def
        task_page_only_def wiki_page_2_def comments_of_task_def comments_of_wiki_def
        task_parser_def wiki_parser_def comment_parser_def
        entry_edit_def entry_at_def
        make_task_def make_wiki_def make_comment_def task_a_def wiki_old_def
        comment_at_def comment_new_def
        tasks_query_def wikis_query_def index_all_documents_def FEED_BATCH_SIZE_def
        basic_document_def fromtimestamp_utc_def)


theorem feed_new_documents_order_witness:
  "feed_new_documents fromtimestamp_utc sample_source sample_world
     = Some (Inr ([map (\<lambda>d. projr (basic_document fromtimestamp_utc 7 d))
                     [make_task task_a, make_wiki wiki_old,
                      make_comment comment_at, make_comment comment_new]], Inr (Some 4)),
             sample_world_after)
   \<and> (\<exists>wikis w1 tasks w2 groups ws.
           get_all_wikis (phab sample_source) (last_index_time_timestamp sample_source) sample_world
             = Some (Inr wikis, w1)
           \<and> get_all_tasks (phab sample_source) (last_index_time_timestamp sample_source) w1
             = Some (Inr tasks, w2)
           \<and> list_all is_task tasks \<and> list_all is_wiki wikis
           \<and> list_all is_comment (concat groups)
           \<and> length groups = length (tasks @ wikis)
           \<and> length ws = Suc (length (tasks @ wikis))
           \<and> ws ! 0 = w2 \<and> last ws = sample_world_after
           \<and> (\<forall>i < length (tasks @ wikis).
                 get_object_comments (phab sample_source) ((tasks @ wikis) ! i)
                     (last_index_time_timestamp sample_source) (ws ! i)
                   = Some (Inr (groups ! i), ws ! Suc i))
           \<and> ([map (\<lambda>d. projr (basic_document fromtimestamp_utc 7 d))
                     [make_task task_a, make_wiki wiki_old,
                      make_comment comment_at, make_comment comment_new]], Inr (Some 4))
               = index_all_documents fromtimestamp_utc (data_source_id sample_source)
                   (tasks @ wikis @ concat groups))"
  by (intro conjI sample_pass feed_new_documents_order[OF sample_pass])

end
